theory Spec2Isabelle
  imports Complex_Main "HOL-Library.Sublist" "HOL-Library.AList"
begin

section \<open>Python strings\<close>

text \<open>
  A Python \<open>str\<close> is a sequence of Unicode code points; a code point is modelled as a
  natural number and a string as a list of code points.  ASCII literals are written through
  \<open>of_ascii\<close>.
\<close>

type_synonym codepoint = nat
type_synonym str = "codepoint list"

definition of_ascii :: "string \<Rightarrow> str" where
  "of_ascii s = map of_char s"

text \<open>
  \<open>str.isspace\<close> on one code point: the characters that \<open>str.strip()\<close> removes
  (bidirectional class WS, B or S, or category Zs).
\<close>

definition isspace :: "codepoint \<Rightarrow> bool" where
  "isspace c \<longleftrightarrow>
     (9 \<le> c \<and> c \<le> 13) \<or> (28 \<le> c \<and> c \<le> 32) \<or> c = 133 \<or> c = 160 \<or> c = 5760 \<or>
     (8192 \<le> c \<and> c \<le> 8202) \<or> c = 8232 \<or> c = 8233 \<or> c = 8239 \<or> c = 8287 \<or> c = 12288"

text \<open>\<open>s.strip()\<close>: leading and trailing whitespace removed.\<close>

definition strip :: "str \<Rightarrow> str" where
  "strip s = rev (dropWhile isspace (rev (dropWhile isspace s)))"

text \<open>
  \<open>s.split(sep)\<close> for a non-empty separator: scanning from the left, every non-overlapping
  occurrence of \<open>sep\<close> ends a piece; the result always holds at least one piece.
\<close>

fun cons_hd :: "'a \<Rightarrow> 'a list list \<Rightarrow> 'a list list" where
  "cons_hd x [] = [[x]]"
| "cons_hd x (l # ls) = (x # l) # ls"

function py_split :: "'a list \<Rightarrow> 'a list \<Rightarrow> 'a list list" where
  "py_split sep s =
     (if s = [] then [[]]
      else if sep \<noteq> [] \<and> prefix sep s then [] # py_split sep (drop (length sep) s)
      else cons_hd (hd s) (py_split sep (tl s)))"
  by pat_completeness auto
termination
  by (relation "measure (\<lambda>(sep, s). length s)") auto

declare py_split.simps [simp del]

text \<open>\<open>sep.join(xs)\<close>.\<close>

fun py_join :: "'a list \<Rightarrow> 'a list list \<Rightarrow> 'a list" where
  "py_join sep [] = []"
| "py_join sep [x] = x"
| "py_join sep (x # y # ys) = x @ sep @ py_join sep (y # ys)"

text \<open>\<open>s.replace(old, new)\<close> for a non-empty \<open>old\<close>.\<close>

function py_replace :: "'a list \<Rightarrow> 'a list \<Rightarrow> 'a list \<Rightarrow> 'a list" where
  "py_replace old new s =
     (if s = [] then []
      else if old \<noteq> [] \<and> prefix old s then new @ py_replace old new (drop (length old) s)
      else hd s # py_replace old new (tl s))"
  by pat_completeness auto
termination
  by (relation "measure (\<lambda>(old, new, s). length s)") auto

declare py_replace.simps [simp del]

text \<open>The paragraph separator \<open>'\n\n'\<close>.\<close>

definition blank_line :: str where
  "blank_line = [10, 10]"

section \<open>The chunker: \<open>preprocess_and_chunk\<close> of \<open>utils/parser.py\<close>\<close>

record chunk =
  chunk_text :: str
  doc_id :: str
  paragraph_index :: int
  offset :: int

text \<open>The local variables of the loop over \<open>enumerate(paragraphs)\<close>.\<close>

record chunker_state =
  chunks :: "chunk list"
  current_chunk :: "str list"
  current_length :: int
  char_offset :: int
  paragraph_start_index :: int

definition init_state :: chunker_state where
  "init_state = \<lparr>chunks = [], current_chunk = [], current_length = 0, char_offset = 0,
     paragraph_start_index = 0\<rparr>"

definition emit :: "str \<Rightarrow> chunker_state \<Rightarrow> chunk" where
  "emit doc st = \<lparr>chunk_text = py_join blank_line (current_chunk st), doc_id = doc,
     paragraph_index = paragraph_start_index st, offset = char_offset st\<rparr>"

text \<open>The \<open>if\<close> of the loop body: close the buffer and keep its last paragraph.\<close>

definition close_chunk :: "str \<Rightarrow> int \<Rightarrow> chunker_state \<Rightarrow> chunker_state" where
  "close_chunk doc para_idx st =
     (if length (current_chunk st) > 1
      then st\<lparr>chunks := chunks st @ [emit doc st],
              current_chunk := [last (current_chunk st)],
              current_length := int (length (last (current_chunk st))),
              paragraph_start_index := para_idx - 1\<rparr>
      else st\<lparr>chunks := chunks st @ [emit doc st],
              current_chunk := [],
              current_length := 0,
              paragraph_start_index := para_idx\<rparr>)"

definition chunk_step :: "str \<Rightarrow> int \<Rightarrow> int \<Rightarrow> str \<Rightarrow> chunker_state \<Rightarrow> chunker_state" where
  "chunk_step doc chunk_size para_idx para st =
     (let para_len = int (length para);
          st1 = (if current_length st + para_len > chunk_size \<and> current_chunk st \<noteq> []
                 then close_chunk doc para_idx st else st)
      in st1\<lparr>current_chunk := current_chunk st1 @ [para],
             current_length := current_length st1 + para_len,
             char_offset := char_offset st1 + para_len + 2\<rparr>)"

fun chunk_loop :: "str \<Rightarrow> int \<Rightarrow> int \<Rightarrow> str list \<Rightarrow> chunker_state \<Rightarrow> chunker_state" where
  "chunk_loop doc chunk_size para_idx [] st = st"
| "chunk_loop doc chunk_size para_idx (para # rest) st =
     chunk_loop doc chunk_size (para_idx + 1) rest (chunk_step doc chunk_size para_idx para st)"

text \<open>\<open>[p.strip() for p in text.split('\n\n') if p.strip()]\<close>\<close>

definition paragraphs_of :: "str \<Rightarrow> str list" where
  "paragraphs_of t = map strip (filter (\<lambda>p. strip p \<noteq> []) (py_split blank_line t))"

text \<open>
  The parameter \<open>overlap\<close> is part of the signature (default 200) and is never read by the
  body; \<open>chunk_size\<close> defaults to 2000.
\<close>

definition preprocess_and_chunk :: "str \<Rightarrow> str \<Rightarrow> int \<Rightarrow> int \<Rightarrow> chunk list" where
  "preprocess_and_chunk text0 doc chunk_size overlap =
     (let t = strip text0;
          st = chunk_loop doc chunk_size 0 (paragraphs_of t) init_state;
          out = (if current_chunk st \<noteq> [] then chunks st @ [emit doc st] else chunks st)
      in if out \<noteq> [] then out
         else [\<lparr>chunk_text = t, doc_id = doc, paragraph_index = 0, offset = 0\<rparr>])"

text \<open>
  What \<open>paragraphs_of\<close> produces: a paragraph is non-empty, stripped, and holds no
  blank line.
\<close>

definition wf_para :: "str \<Rightarrow> bool" where
  "wf_para p \<longleftrightarrow> p \<noteq> [] \<and> strip p = p \<and> \<not> sublist blank_line p"

definition para_offs :: "str list \<Rightarrow> int" where
  "para_offs ps = (\<Sum>p\<leftarrow>ps. int (length p) + 2)"

definition trim_overlap :: "'a list \<Rightarrow> 'a list" where
  "trim_overlap b = (if length b > 1 then butlast b else b)"

fun dedup_overlap :: "'a list list \<Rightarrow> 'a list" where
  "dedup_overlap [] = []"
| "dedup_overlap [b] = b"
| "dedup_overlap (b # b' # bs) = trim_overlap b @ dedup_overlap (b' # bs)"

definition chunk_ok :: "str \<Rightarrow> int \<Rightarrow> str list \<Rightarrow> chunk \<Rightarrow> str list \<Rightarrow> bool" where
  "chunk_ok doc chunk_size pre c b \<longleftrightarrow>
     chunk_text c = py_join blank_line b \<and> doc_id c = doc \<and> b \<noteq> [] \<and>
     0 \<le> paragraph_index c \<and> nat (paragraph_index c) + length b \<le> length pre \<and>
     b = take (length b) (drop (nat (paragraph_index c)) pre) \<and>
     offset c = para_offs (take (nat (paragraph_index c) + length b) pre) \<and>
     ((\<exists>p\<in>set b. chunk_size < int (length p)) \<longrightarrow> length b \<le> 2)"

definition state_ok :: "int \<Rightarrow> str list \<Rightarrow> chunker_state \<Rightarrow> bool" where
  "state_ok chunk_size pre st \<longleftrightarrow>
     0 \<le> paragraph_start_index st \<and> nat (paragraph_start_index st) \<le> length pre \<and>
     current_chunk st = drop (nat (paragraph_start_index st)) pre \<and>
     current_length st = int (sum_list (map length (current_chunk st))) \<and>
     char_offset st = para_offs pre \<and>
     ((\<exists>p\<in>set (current_chunk st). chunk_size < int (length p)) \<longrightarrow> length (current_chunk st) \<le> 2)"

fun linked :: "(int \<times> nat) list \<Rightarrow> int \<Rightarrow> bool" where
  "linked [] nxt = True"
| "linked [(i, n)] nxt = (nxt = i + int n - (if n > 1 then 1 else 0))"
| "linked ((i, n) # (i', n') # r) nxt =
     (i' = i + int n - (if n > 1 then 1 else 0) \<and> linked ((i', n') # r) nxt)"

definition loop_inv :: "str \<Rightarrow> int \<Rightarrow> str list \<Rightarrow> str list list \<Rightarrow> chunker_state \<Rightarrow> bool" where
  "loop_inv doc chunk_size pre bs st \<longleftrightarrow>
     list_all2 (chunk_ok doc chunk_size pre) (chunks st) bs \<and>
     state_ok chunk_size pre st \<and> (pre \<noteq> [] \<longrightarrow> current_chunk st \<noteq> []) \<and>
     concat (map trim_overlap bs) @ current_chunk st = pre \<and>
     linked (zip (map paragraph_index (chunks st)) (map length bs)) (paragraph_start_index st)"

definition overlap_paragraphs :: "chunk \<Rightarrow> chunk \<Rightarrow> int" where
  "overlap_paragraphs c c' =
     paragraph_index c + int (length (paragraphs_of (chunk_text c))) - paragraph_index c'"

section \<open>The extraction orchestrator: \<open>extract_with_gemini\<close> and \<open>parse_key_value_pairs\<close>\<close>

text \<open>
  The value \<open>json.loads\<close> returns.  An object is the list of the items of the Python
  \<open>dict\<close> in insertion order (its keys are distinct); a finite float is its rational value.
\<close>

datatype json = JNull | JBool bool | JInt int | JFloat rat | JStr str
  | JArr "json list" | JObj "(str \<times> json) list"

type_synonym pydict = "(str \<times> json) list"

text \<open>The exceptions the module raises, with their messages.\<close>

datatype py_error = ValueError str | Exception str

text \<open>Python truthiness: \<open>not v\<close> is \<open>\<not> truthy v\<close>.\<close>

fun truthy :: "json \<Rightarrow> bool" where
  "truthy JNull = False"
| "truthy (JBool b) = b"
| "truthy (JInt i) = (i \<noteq> 0)"
| "truthy (JFloat r) = (r \<noteq> 0)"
| "truthy (JStr s) = (s \<noteq> [])"
| "truthy (JArr xs) = (xs \<noteq> [])"
| "truthy (JObj kvs) = (kvs \<noteq> [])"

fun is_list :: "json \<Rightarrow> bool" where
  "is_list (JArr xs) = True"
| "is_list v = False"

fun type_name :: "json \<Rightarrow> str" where
  "type_name JNull = of_ascii ''NoneType''"
| "type_name (JBool b) = of_ascii ''bool''"
| "type_name (JInt i) = of_ascii ''int''"
| "type_name (JFloat r) = of_ascii ''float''"
| "type_name (JStr s) = of_ascii ''str''"
| "type_name (JArr xs) = of_ascii ''list''"
| "type_name (JObj kvs) = of_ascii ''dict''"

text \<open>Decimal rendering of an integer in an f-string.\<close>

function show_nat :: "nat \<Rightarrow> str" where
  "show_nat n = (if n < 10 then [48 + n] else show_nat (n div 10) @ [48 + n mod 10])"
  by pat_completeness auto
termination
  by (relation "measure id") auto

declare show_nat.simps [simp del]

definition show_int :: "int \<Rightarrow> str" where
  "show_int i = (if i < 0 then 45 # show_nat (nat (- i)) else show_nat (nat i))"

text \<open>
  \<open>':' in v\<close>: substring test on a string, membership on a list, key membership on a dict,
  and a \<open>TypeError\<close> (its message on the left) on every other value.
\<close>

fun colon_in :: "json \<Rightarrow> str + bool" where
  "colon_in (JStr s) = Inr (58 \<in> set s)"
| "colon_in (JArr xs) = Inr (JStr [58] \<in> set xs)"
| "colon_in (JObj kvs) = Inr ([58] \<in> set (map fst kvs))"
| "colon_in v = Inl (of_ascii ''argument of type '' @ [39] @ type_name v @ [39]
     @ of_ascii '' is not iterable'')"

definition default_provenance :: "str \<Rightarrow> int \<Rightarrow> str \<Rightarrow> str" where
  "default_provenance doc paragraph_idx chunk_txt =
     doc @ [58] @ show_int paragraph_idx @ of_ascii '':0-'' @ show_nat (length chunk_txt)"

text \<open>
  One iteration of \<open>for item in extractions\<close> (lines 221--224).  \<open>item.get\<close> on a value
  that is not a dict raises \<open>AttributeError\<close>; the raised message is on the left.
\<close>

fun backfill_item :: "str \<Rightarrow> json \<Rightarrow> str + pydict" where
  "backfill_item dflt (JObj kvs) =
     (case map_of kvs (of_ascii ''provenance'') of
        None \<Rightarrow> Inr (AList.update (of_ascii ''provenance'') (JStr dflt) kvs)
      | Some v \<Rightarrow>
          if \<not> truthy v then Inr (AList.update (of_ascii ''provenance'') (JStr dflt) kvs)
          else (case colon_in v of
                  Inl msg \<Rightarrow> Inl msg
                | Inr True \<Rightarrow> Inr kvs
                | Inr False \<Rightarrow> Inr (AList.update (of_ascii ''provenance'') (JStr dflt) kvs)))"
| "backfill_item dflt v =
     Inl ([39] @ type_name v @ [39] @ of_ascii '' object has no attribute '' @ [39]
          @ of_ascii ''get'' @ [39])"

fun backfill_all :: "str \<Rightarrow> json list \<Rightarrow> str + pydict list" where
  "backfill_all dflt [] = Inr []"
| "backfill_all dflt (item # rest) =
     (case backfill_item dflt item of
        Inl msg \<Rightarrow> Inl msg
      | Inr d \<Rightarrow> (case backfill_all dflt rest of Inl msg \<Rightarrow> Inl msg | Inr ds \<Rightarrow> Inr (d # ds)))"

text \<open>The warning of line 216.\<close>

definition empty_warning :: "str \<Rightarrow> int \<Rightarrow> str \<Rightarrow> str" where
  "empty_warning doc paragraph_idx chunk_txt =
     of_ascii ''Gemini returned empty/invalid extraction for '' @ doc @ of_ascii '':para_''
     @ show_int paragraph_idx @ of_ascii ''. Text preview: '' @ take 200 chunk_txt @ of_ascii ''...''"

text \<open>
  Lines 213--226, on the decoded value: the result (a raised message or the records) and the
  warnings logged.
\<close>

fun list_items :: "json \<Rightarrow> json list" where
  "list_items (JArr items) = items"
| "list_items v = []"

definition validate_extractions :: "str \<Rightarrow> int \<Rightarrow> str \<Rightarrow> json \<Rightarrow> (str + pydict list) \<times> str list" where
  "validate_extractions doc paragraph_idx chunk_txt extractions =
     (if \<not> truthy extractions \<or> \<not> is_list extractions
      then (Inr [], [empty_warning doc paragraph_idx chunk_txt])
      else (backfill_all (default_provenance doc paragraph_idx chunk_txt) (list_items extractions), []))"

text \<open>Lines 197--209: the response text, stripped and freed of a Markdown code fence.\<close>

definition fence :: str where
  "fence = [96, 96, 96]"

definition clean_response :: "str option \<Rightarrow> str" where
  "clean_response resp =
     (let response_text = strip (case resp of None \<Rightarrow> [] | Some s \<Rightarrow> s)
      in if prefix fence response_text
         then (let parts = py_split fence response_text;
                   r1 = (if length parts \<ge> 2
                         then (let p1 = parts ! 1
                               in if prefix (of_ascii ''json'') p1 then drop 4 p1 else p1)
                         else response_text)
               in strip r1)
         else response_text)"

text \<open>The \<open>except Exception\<close> handler (lines 232--240).\<close>

definition invalid_key_message :: str where
  "invalid_key_message =
     of_ascii ''Invalid Gemini API key. Please check your API key and try again.'' @ [10, 10]
     @ of_ascii ''To get a valid API key:'' @ [10]
     @ of_ascii ''1. Go to https://aistudio.google.com/app/apikey'' @ [10]
     @ of_ascii ''2. Create or copy your API key'' @ [10]
     @ of_ascii ''3. Paste it in the sidebar''"

definition reraise :: "str \<Rightarrow> py_error" where
  "reraise error_msg =
     (if sublist (of_ascii ''API key not valid'') error_msg \<or> sublist (of_ascii ''API_KEY_INVALID'') error_msg
      then ValueError invalid_key_message
      else if sublist (of_ascii ''INVALID_ARGUMENT'') error_msg
      then ValueError (of_ascii ''Invalid API request: '' @ error_msg)
      else Exception (of_ascii ''Gemini API call failed: '' @ error_msg))"

text \<open>The \<open>except json.JSONDecodeError\<close> handler (lines 228--231).\<close>

definition decode_error :: "str \<Rightarrow> str \<Rightarrow> py_error" where
  "decode_error response_text e =
     ValueError (of_ascii ''Failed to parse JSON response from Gemini API. Response: ''
       @ (if response_text \<noteq> [] then take 500 response_text else of_ascii ''No response received'')
       @ [10] @ of_ascii ''Error: '' @ e)"

text \<open>
  The external capability.  The request holds what the prompt interpolates (chunk text,
  document id, paragraph index, the keys of the hint) and the API key; the answer is the
  message of an exception raised by the client, or \<open>response.text\<close> (which may be \<open>None\<close>).
  \<open>json.loads\<close> is the second external part: the message of its \<open>JSONDecodeError\<close>, or
  the decoded value.
\<close>

record request =
  req_text :: str
  req_doc_id :: str
  req_paragraph_index :: int
  req_keys :: "str list"
  req_api_key :: "str option"

type_synonym capability = "request \<Rightarrow> str + str option"
type_synonym decoder = "str \<Rightarrow> str + json"

definition keys_hint :: "str list option \<Rightarrow> str list" where
  "keys_hint custom_keys = (case custom_keys of None \<Rightarrow> [] | Some ks \<Rightarrow> ks)"

definition extract_with_gemini ::
  "decoder \<Rightarrow> capability \<Rightarrow> str \<Rightarrow> str \<Rightarrow> int \<Rightarrow> int \<Rightarrow> str list option \<Rightarrow> str option
     \<Rightarrow> (py_error + pydict list) \<times> str list" where
  "extract_with_gemini loads llm chunk_txt doc paragraph_idx char_offs custom_keys api_key =
     (case llm \<lparr>req_text = chunk_txt, req_doc_id = doc, req_paragraph_index = paragraph_idx,
                req_keys = keys_hint custom_keys, req_api_key = api_key\<rparr> of
        Inl error_msg \<Rightarrow> (Inl (reraise error_msg), [])
      | Inr resp \<Rightarrow>
          (let response_text = clean_response resp
           in case loads response_text of
                Inl e \<Rightarrow> (Inl (decode_error response_text e), [])
              | Inr extractions \<Rightarrow>
                  (case validate_extractions doc paragraph_idx chunk_txt extractions of
                     (Inl error_msg, logged) \<Rightarrow> (Inl (reraise error_msg), logged)
                   | (Inr records, logged) \<Rightarrow> (Inr records, logged))))"

section \<open>The projector: \<open>convert_to_three_columns\<close>\<close>

definition dict_get :: "pydict \<Rightarrow> str \<Rightarrow> json \<Rightarrow> json" where
  "dict_get d k dflt = (case map_of d k of None \<Rightarrow> dflt | Some v \<Rightarrow> v)"

definition convert_item :: "pydict \<Rightarrow> pydict" where
  "convert_item item =
     [(of_ascii ''key'', dict_get item (of_ascii ''key'') (JStr (of_ascii ''unknown_key''))),
      (of_ascii ''value'', dict_get item (of_ascii ''value'') (JStr [])),
      (of_ascii ''comments'', dict_get item (of_ascii ''comments'') (JStr []))]"

fun convert_to_three_columns :: "pydict list \<Rightarrow> pydict list" where
  "convert_to_three_columns [] = []"
| "convert_to_three_columns (item # rest) = convert_item item # convert_to_three_columns rest"

text \<open>
  \<open>parse_key_value_pairs\<close>: the loop over the chunks stops at the first exception; the
  warnings logged before it stay logged.
\<close>

fun extract_loop ::
  "decoder \<Rightarrow> capability \<Rightarrow> str list option \<Rightarrow> str option \<Rightarrow> pydict list \<Rightarrow> str list \<Rightarrow> chunk list
     \<Rightarrow> (py_error + pydict list) \<times> str list" where
  "extract_loop loads llm custom_keys api_key all_extractions logged [] =
     (Inr all_extractions, logged)"
| "extract_loop loads llm custom_keys api_key all_extractions logged (chunk_data # rest) =
     (case extract_with_gemini loads llm (chunk_text chunk_data) (doc_id chunk_data)
             (paragraph_index chunk_data) (offset chunk_data) custom_keys api_key of
        (Inl err, logged') \<Rightarrow> (Inl err, logged @ logged')
      | (Inr extracted, logged') \<Rightarrow>
          extract_loop loads llm custom_keys api_key (all_extractions @ extracted)
            (logged @ logged') rest)"

definition parse_key_value_pairs ::
  "decoder \<Rightarrow> capability \<Rightarrow> str \<Rightarrow> str \<Rightarrow> str list option \<Rightarrow> str \<Rightarrow> str
     \<Rightarrow> (py_error + pydict list) \<times> str list" where
  "parse_key_value_pairs loads llm text0 api_key custom_keys extraction_method doc =
     (if api_key = [] then (Inl (ValueError (of_ascii ''Google Gemini API key is required'')), [])
      else (case extract_loop loads llm custom_keys (Some api_key) [] []
                   (preprocess_and_chunk text0 doc 2000 200) of
              (Inl err, logged) \<Rightarrow> (Inl err, logged)
            | (Inr all_extractions, logged) \<Rightarrow> (Inr (convert_to_three_columns all_extractions), logged)))"

text \<open>
  The shape of a provenance string in the words of the specification:
  \<open><doc_id>:<paragraph_index>:<char_start>-<char_end>\<close>, for example \<open>D2:3:145-312\<close>.
\<close>

definition all_digits :: "str \<Rightarrow> bool" where
  "all_digits s \<longleftrightarrow> s \<noteq> [] \<and> list_all (\<lambda>c. 48 \<le> c \<and> c \<le> 57) s"

definition spec_provenance_shape :: "str \<Rightarrow> bool" where
  "spec_provenance_shape s =
     (case py_split [58] s of
        [d, p, r] \<Rightarrow> d \<noteq> [] \<and> all_digits p \<and>
          (case py_split [45] r of [a, b] \<Rightarrow> all_digits a \<and> all_digits b | _ \<Rightarrow> False)
      | _ \<Rightarrow> False)"

text \<open>The request built for one chunk.\<close>

definition chunk_request :: "chunk \<Rightarrow> str list option \<Rightarrow> str option \<Rightarrow> request" where
  "chunk_request c custom_keys api_key =
     \<lparr>req_text = chunk_text c, req_doc_id = doc_id c, req_paragraph_index = paragraph_index c,
      req_keys = keys_hint custom_keys, req_api_key = api_key\<rparr>"

section \<open>The normalizer: \<open>normalize_text\<close> of \<open>utils/text_extractor.py\<close>\<close>

text \<open>
  \<open>re.sub(r'[ \t]+', ' ', line)\<close>: every maximal run of spaces and tabs becomes one space.
  A blank followed by a blank is dropped; the last blank of a run is written as a space.
\<close>

definition blank :: "codepoint \<Rightarrow> bool" where
  "blank c \<longleftrightarrow> c = 32 \<or> c = 9"

fun collapse_blanks :: "str \<Rightarrow> str" where
  "collapse_blanks (a # b # s) =
     (if blank a \<and> blank b then collapse_blanks (b # s)
      else (if blank a then 32 else a) # collapse_blanks (b # s))"
| "collapse_blanks [a] = [if blank a then 32 else a]"
| "collapse_blanks [] = []"

text \<open>
  \<open>re.sub(r'\n{3,}', '\n\n', text)\<close>: every maximal run of three or more newlines becomes
  two.  A newline followed by two more newlines is dropped.
\<close>

fun collapse_newlines :: "str \<Rightarrow> str" where
  "collapse_newlines (a # b # c # s) =
     (if a = 10 \<and> b = 10 \<and> c = 10 then collapse_newlines (b # c # s)
      else a # collapse_newlines (b # c # s))"
| "collapse_newlines s = s"

text \<open>
  Lines 104--119, after the NFKC step: the filter on \<open>isprintable\<close>, the newline
  conversion, the line-wise cleaning, the collapse of blank lines and the final strip.
  \<open>str.isprintable\<close> (a table of the Unicode database) is a parameter.
\<close>

definition normalize_core :: "(codepoint \<Rightarrow> bool) \<Rightarrow> str \<Rightarrow> str" where
  "normalize_core isprintable t1 =
     (let t2 = filter (\<lambda>char. isprintable char \<or> char \<in> set [10, 9, 13]) t1;
          t3 = py_replace [13] [10] (py_replace [13, 10] [10] t2);
          lines = py_split [10] t3;
          lines' = map (\<lambda>line. collapse_blanks (strip line)) lines;
          t4 = py_join [10] lines';
          t5 = collapse_newlines t4
      in strip t5)"

text \<open>
  \<open>normalize_text\<close>; \<open>unicodedata.normalize('NFKC', text)\<close> (line 101) is the
  parameter \<open>nfkc\<close>.
\<close>

definition normalize_text :: "(str \<Rightarrow> str) \<Rightarrow> (codepoint \<Rightarrow> bool) \<Rightarrow> str \<Rightarrow> str" where
  "normalize_text nfkc isprintable text0 = normalize_core isprintable (nfkc text0)"

text \<open>Some adjacent pair of the list satisfies \<open>R\<close>.\<close>

fun adj :: "('a \<Rightarrow> 'a \<Rightarrow> bool) \<Rightarrow> 'a list \<Rightarrow> bool" where
  "adj R (a # b # s) = (R a b \<or> adj R (b # s))"
| "adj R s = False"

text \<open>
  The pairs that a normalized text does not hold side by side: two spaces, and a newline
  next to another whitespace character (a line that starts or ends with whitespace).
\<close>

definition two_spaces :: "codepoint \<Rightarrow> codepoint \<Rightarrow> bool" where
  "two_spaces a b \<longleftrightarrow> a = 32 \<and> b = 32"

definition bad_pair :: "codepoint \<Rightarrow> codepoint \<Rightarrow> bool" where
  "bad_pair a b \<longleftrightarrow> (a = 10 \<and> isspace b \<and> b \<noteq> 10) \<or> (isspace a \<and> a \<noteq> 10 \<and> b = 10)"

text \<open>
  Two instances of the external parts, for closed examples.  \<open>nfkc_fragment\<close> is
  \<open>unicodedata.normalize('NFKC', \<cdot>)\<close> on strings of ASCII characters, the full-width forms
  U+FF01..U+FF5E, U+00E1, ZERO WIDTH SPACE (U+200B) and COMBINING ACUTE ACCENT (U+0301) in
  which U+0301 follows no letter but \<open>a\<close>: a full-width form becomes its ASCII character,
  and \<open>a\<close> followed by U+0301 is composed to U+00E1.  \<open>isprintable_fragment\<close> is
  \<open>str.isprintable\<close> on these code points: U+200B (category Cf) and the ASCII control
  characters are not printable.
\<close>

definition fold_width :: "codepoint \<Rightarrow> codepoint" where
  "fold_width c = (if 65281 \<le> c \<and> c \<le> 65374 then c - 65248 else c)"

fun compose_acute :: "str \<Rightarrow> str" where
  "compose_acute (a # b # s) =
     (if a = 97 \<and> b = 769 then 225 # compose_acute s else a # compose_acute (b # s))"
| "compose_acute s = s"

definition nfkc_fragment :: "str \<Rightarrow> str" where
  "nfkc_fragment s = compose_acute (map fold_width s)"

definition isprintable_fragment :: "codepoint \<Rightarrow> bool" where
  "isprintable_fragment c \<longleftrightarrow>
     (32 \<le> c \<and> c \<le> 126) \<or> c = 225 \<or> c = 769 \<or> (65281 \<le> c \<and> c \<le> 65374)"

section \<open>Properties of the string operations\<close>

lemma py_split_Nil [simp]: "py_split sep [] = [[]]"
  by (simp add: py_split.simps)

lemma py_split_Cons:
  "py_split sep (x # xs) =
     (if sep \<noteq> [] \<and> prefix sep (x # xs) then [] # py_split sep (drop (length sep) (x # xs))
      else cons_hd x (py_split sep xs))"
  by (subst py_split.simps) simp

lemma isspace_10 [simp]: "isspace 10"
  by (simp add: isspace_def)

lemma strip_Nil [simp]: "strip [] = []"
  by (simp add: strip_def)

lemma strip_decomp: "\<exists>a b. s = a @ strip s @ b"
proof -
  let ?d = "dropWhile isspace s"
  have "?d = rev (takeWhile isspace (rev ?d) @ dropWhile isspace (rev ?d))"
    by (simp only: takeWhile_dropWhile_id rev_rev_ident)
  then have "?d = strip s @ rev (takeWhile isspace (rev ?d))"
    by (simp only: rev_append strip_def)
  moreover have "s = takeWhile isspace s @ ?d" by simp
  ultimately have "s = takeWhile isspace s @ strip s @ rev (takeWhile isspace (rev ?d))" by simp
  then show ?thesis by blast
qed

lemma dropWhile_all_iff: "(\<forall>x\<in>set (dropWhile P xs). P x) \<longleftrightarrow> dropWhile P xs = []"
proof
  assume a: "\<forall>x\<in>set (dropWhile P xs). P x"
  show "dropWhile P xs = []"
  proof (rule ccontr)
    assume ne: "dropWhile P xs \<noteq> []"
    then have "\<not> P (hd (dropWhile P xs))" by (simp add: hd_dropWhile)
    moreover from ne have "hd (dropWhile P xs) \<in> set (dropWhile P xs)" by simp
    ultimately show False using a by blast
  qed
qed (auto dest: set_dropWhileD)

lemma strip_eq_Nil_iff: "strip s = [] \<longleftrightarrow> (\<forall>c\<in>set s. isspace c)"
  by (simp add: strip_def dropWhile_eq_Nil_conv dropWhile_all_iff)

lemma last_strip: "strip s \<noteq> [] \<Longrightarrow> \<not> isspace (last (strip s))"
  unfolding strip_def by (simp add: last_rev hd_dropWhile)

lemma last_dropWhile: "dropWhile P xs \<noteq> [] \<Longrightarrow> last (dropWhile P xs) = last xs"
  by (induction xs) (auto split: if_splits)

lemma hd_strip: "strip s \<noteq> [] \<Longrightarrow> \<not> isspace (hd (strip s))"
proof -
  assume a: "strip s \<noteq> []"
  let ?d = "dropWhile isspace s"
  from a have ne: "dropWhile isspace (rev ?d) \<noteq> []" by (simp add: strip_def)
  then have d: "?d \<noteq> []" by (cases "?d") simp_all
  have "hd (strip s) = last (dropWhile isspace (rev ?d))"
    using ne by (simp add: strip_def hd_rev)
  also have "\<dots> = last (rev ?d)" using ne by (rule last_dropWhile)
  also have "\<dots> = hd ?d" using d by (simp add: last_rev)
  finally show ?thesis using d by (simp add: hd_dropWhile)
qed

lemma strip_fixed: "s = [] \<or> (\<not> isspace (hd s) \<and> \<not> isspace (last s)) \<Longrightarrow> strip s = s"
proof (cases "s = []")
  case True then show ?thesis by simp
next
  case False
  assume "s = [] \<or> (\<not> isspace (hd s) \<and> \<not> isspace (last s))"
  with False have h: "\<not> isspace (hd s)" and l: "\<not> isspace (last s)" by auto
  from False h have 1: "dropWhile isspace s = s" by (cases s) auto
  from False l have 2: "dropWhile isspace (rev s) = rev s" by (cases "rev s") (auto simp: last_rev)
  show ?thesis by (simp add: strip_def 1 2)
qed

lemma strip_idem [simp]: "strip (strip s) = strip s"
  using strip_fixed [of "strip s"] hd_strip [of s] last_strip [of s] by blast


lemma py_split_not_Nil [simp]: "py_split sep s \<noteq> []"
  by (induction sep s rule: py_split.induct) (subst py_split.simps, auto split: list.splits elim: cons_hd.elims)

lemma blank_prefix_iff: "prefix blank_line (x # xs) \<longleftrightarrow> x = 10 \<and> xs \<noteq> [] \<and> hd xs = 10"
  by (cases xs) (auto simp: blank_line_def)

lemma split_blank_hit: "py_split blank_line (10 # 10 # xs) = [] # py_split blank_line xs"
  by (subst py_split.simps) (simp add: blank_line_def)

lemma split_blank_miss:
  "\<not> prefix blank_line (x # xs) \<Longrightarrow> py_split blank_line (x # xs) = cons_hd x (py_split blank_line xs)"
  by (subst py_split.simps) simp

lemma hd_cons_hd: "ys \<noteq> [] \<Longrightarrow> hd (cons_hd x ys) = x # hd ys"
  by (cases ys) simp_all

lemma set_cons_hd: "ys \<noteq> [] \<Longrightarrow> set (cons_hd x ys) = insert (x # hd ys) (set (tl ys))"
  by (cases ys) simp_all

lemma hd_split_prefix: "prefix (hd (py_split sep s)) s"
proof (induction sep s rule: py_split.induct)
  case (1 sep s)
  show ?case
  proof (cases s)
    case Nil then show ?thesis by simp
  next
    case (Cons x xs)
    show ?thesis
    proof (cases "sep \<noteq> [] \<and> prefix sep s")
      case True
      then show ?thesis by (subst py_split.simps) (simp add: Cons)
    next
      case False
      with 1(2) Cons have "prefix (hd (py_split sep xs)) xs" by simp
      with False show ?thesis
        by (subst py_split.simps) (auto simp: Cons hd_cons_hd)
    qed
  qed
qed

lemma no_blank_Cons:
  "\<not> sublist blank_line (x # xs) \<longleftrightarrow> \<not> prefix blank_line (x # xs) \<and> \<not> sublist blank_line xs"
  by (simp add: sublist_Cons_right)

lemma blank_line_not_Nil [simp]: "blank_line \<noteq> []"
  by (simp add: blank_line_def)

lemma split_pieces_no_blank:
  "q \<in> set (py_split blank_line t) \<Longrightarrow> \<not> sublist blank_line q"
proof (induction t arbitrary: q rule: length_induct)
  case (1 t)
  show ?case
  proof (cases t)
    case Nil with 1(2) show ?thesis by simp
  next
    case (Cons x xs)
    show ?thesis
    proof (cases "prefix blank_line (x # xs)")
      case True
      then obtain r where xs: "x = 10" "xs = 10 # r"
        by (cases xs) (auto simp: blank_line_def)
      from 1(2) have "q = [] \<or> q \<in> set (py_split blank_line r)"
        by (simp add: Cons xs split_blank_hit)
      moreover have "length r < length t" by (simp add: Cons xs)
      ultimately show ?thesis using 1(1) by auto
    next
      case False
      let ?ys = "py_split blank_line xs"
      from 1(2) False have "q = x # hd ?ys \<or> q \<in> set (tl ?ys)"
        by (simp add: Cons split_blank_miss set_cons_hd)
      then show ?thesis
      proof
        assume q: "q = x # hd ?ys"
        have "hd ?ys \<in> set ?ys" by simp
        moreover have "length xs < length t" by (simp add: Cons)
        ultimately have nb: "\<not> sublist blank_line (hd ?ys)" using 1(1) by blast
        have pf: "prefix (hd ?ys) xs" by (rule hd_split_prefix)
        have "\<not> prefix blank_line (x # hd ?ys)"
        proof
          assume "prefix blank_line (x # hd ?ys)"
          then have "x = 10 \<and> hd ?ys \<noteq> [] \<and> hd (hd ?ys) = 10" by (simp add: blank_prefix_iff)
          with pf have "x = 10 \<and> xs \<noteq> [] \<and> hd xs = 10"
            by (cases "hd ?ys"; cases xs) auto
          with False show False by (simp add: blank_prefix_iff)
        qed
        with nb show ?thesis by (simp add: q no_blank_Cons)
      next
        assume "q \<in> set (tl ?ys)"
        then have "q \<in> set ?ys" by (cases ?ys) simp_all
        moreover have "length xs < length t" by (simp add: Cons)
        ultimately show ?thesis using 1(1) by blast
      qed
    qed
  qed
qed

lemma split_piece:
  "\<not> sublist blank_line p \<Longrightarrow> p = [] \<or> last p \<noteq> 10 \<Longrightarrow>
   py_split blank_line (p @ blank_line @ r) = p # py_split blank_line r"
proof (induction p)
  case Nil
  have "[] @ blank_line @ r = 10 # 10 # r" by (simp add: blank_line_def)
  then show ?case by (simp only: split_blank_hit)
next
  case (Cons a p)
  from Cons.prems(1) have np: "\<not> prefix blank_line (a # p)" and nb: "\<not> sublist blank_line p"
    by (simp_all add: no_blank_Cons)
  have "\<not> prefix blank_line (a # p @ blank_line @ r)"
  proof (cases p)
    case Nil
    with Cons.prems(2) show ?thesis by (simp add: blank_prefix_iff)
  next
    case (Cons b p')
    with np show ?thesis by (simp add: blank_prefix_iff)
  qed
  moreover have "p = [] \<or> last p \<noteq> 10" using Cons.prems(2) by (auto split: if_splits)
  ultimately show ?case using Cons.IH nb by (simp add: split_blank_miss)
qed

lemma split_single: "\<not> sublist blank_line p \<Longrightarrow> py_split blank_line p = [p]"
  by (induction p) (auto simp: no_blank_Cons split_blank_miss)

lemma split_join:
  "\<forall>p\<in>set B. \<not> sublist blank_line p \<and> (p = [] \<or> last p \<noteq> 10) \<Longrightarrow> B \<noteq> [] \<Longrightarrow>
   py_split blank_line (py_join blank_line B) = B"
  by (induction blank_line B rule: py_join.induct) (simp_all add: split_single split_piece)


lemma sublist_strip: "sublist x (strip q) \<Longrightarrow> sublist x q"
proof -
  assume "sublist x (strip q)"
  then obtain u v where "strip q = u @ x @ v" by (auto simp: sublist_def)
  moreover obtain a b where "q = a @ strip q @ b" using strip_decomp by blast
  ultimately have "q = (a @ u) @ x @ (v @ b)" by simp
  then show ?thesis unfolding sublist_def by blast
qed

lemma paragraphs_of_wf: "p \<in> set (paragraphs_of t) \<Longrightarrow> wf_para p"
  by (auto simp: paragraphs_of_def wf_para_def dest: sublist_strip split_pieces_no_blank)

lemma wf_para_last: "wf_para p \<Longrightarrow> last p \<noteq> 10"
  using last_strip [of p] by (auto simp: wf_para_def)

lemma paragraphs_of_join:
  assumes "\<forall>p\<in>set B. wf_para p"
  shows "paragraphs_of (py_join blank_line B) = B"
proof (cases "B = []")
  case True
  then show ?thesis by (simp add: paragraphs_of_def)
next
  case False
  have "py_split blank_line (py_join blank_line B) = B"
  proof (rule split_join)
    show "\<forall>p\<in>set B. \<not> sublist blank_line p \<and> (p = [] \<or> last p \<noteq> 10)"
      using assms wf_para_last by (auto simp: wf_para_def)
  qed (rule False)
  moreover have "filter (\<lambda>p. strip p \<noteq> []) B = B" using assms by (simp add: wf_para_def filter_id_conv)
  moreover have "map strip B = B" by (rule map_idI) (use assms in \<open>simp add: wf_para_def\<close>)
  ultimately show ?thesis by (simp add: paragraphs_of_def)
qed

section \<open>The loop invariant of the chunker\<close>

lemma para_offs_append [simp]: "para_offs (xs @ ys) = para_offs xs + para_offs ys"
  by (simp add: para_offs_def)

lemma para_offs_simps [simp]: "para_offs [] = 0" "para_offs [p] = int (length p) + 2"
  by (simp_all add: para_offs_def)

lemma dedup_snoc: "dedup_overlap (bs @ [c]) = concat (map trim_overlap bs) @ c"
  by (induction bs rule: dedup_overlap.induct) simp_all

lemma trim_overlap_last:
  "b \<noteq> [] \<Longrightarrow> trim_overlap b @ (if length b > 1 then [last b] else []) = b"
  by (simp add: trim_overlap_def)

lemma chunk_ok_mono: "chunk_ok doc cs pre c b \<Longrightarrow> chunk_ok doc cs (pre @ q) c b"
  by (auto simp: chunk_ok_def)

lemma linked_snoc:
  "linked xs i \<Longrightarrow> nxt = i + int n - (if n > 1 then 1 else 0) \<Longrightarrow> linked (xs @ [(i, n)]) nxt"
  by (induction xs i rule: linked.induct) auto

lemma length_le_sum_list: "q \<in> set xs \<Longrightarrow> length q \<le> sum_list (map length xs)"
  by (induction xs) auto

lemma state_okD:
  assumes "state_ok cs pre st"
  shows "0 \<le> paragraph_start_index st"
    and "nat (paragraph_start_index st) \<le> length pre"
    and "current_chunk st = drop (nat (paragraph_start_index st)) pre"
    and "current_length st = int (sum_list (map length (current_chunk st)))"
    and "char_offset st = para_offs pre"
    and "(\<exists>p\<in>set (current_chunk st). cs < int (length p)) \<longrightarrow> length (current_chunk st) \<le> 2"
  using assms unfolding state_ok_def by blast+

lemma state_okI:
  assumes "0 \<le> paragraph_start_index st"
    and "nat (paragraph_start_index st) \<le> length pre"
    and "current_chunk st = drop (nat (paragraph_start_index st)) pre"
    and "current_length st = int (sum_list (map length (current_chunk st)))"
    and "char_offset st = para_offs pre"
    and "(\<exists>p\<in>set (current_chunk st). cs < int (length p)) \<longrightarrow> length (current_chunk st) \<le> 2"
  shows "state_ok cs pre st"
  using assms unfolding state_ok_def by blast

lemma state_ok_append:
  assumes ok: "state_ok cs pre st"
    and small: "length (current_chunk st) \<le> 1 \<or> current_length st + int (length p) \<le> cs"
    and st': "st' = st\<lparr>current_chunk := current_chunk st @ [p],
               current_length := current_length st + int (length p),
               char_offset := char_offset st + int (length p) + 2\<rparr>"
  shows "state_ok cs (pre @ [p]) st'"
proof -
  have f: "current_chunk st' = current_chunk st @ [p]"
    "current_length st' = current_length st + int (length p)"
    "char_offset st' = char_offset st + int (length p) + 2"
    "paragraph_start_index st' = paragraph_start_index st"
    by (simp_all add: st')
  note a = state_okD [OF ok]
  have big: "length (current_chunk st @ [p]) \<le> 2"
    if "q \<in> set (current_chunk st @ [p])" "cs < int (length q)" for q
  proof (cases "length (current_chunk st) \<le> 1")
    case True then show ?thesis by simp
  next
    case False
    with small have le: "current_length st + int (length p) \<le> cs" by simp
    have "int (length q) \<le> current_length st + int (length p)"
      using that(1) a(4) length_le_sum_list [of q "current_chunk st"] by auto
    with le that(2) show ?thesis by simp
  qed
  have c1: "0 \<le> paragraph_start_index st'" using a(1) f(4) by simp
  have c2: "nat (paragraph_start_index st') \<le> length (pre @ [p])" using a(2) f(4) by simp
  have c3: "current_chunk st' = drop (nat (paragraph_start_index st')) (pre @ [p])"
    using a(2) a(3) f(1) f(4) by simp
  have c4: "current_length st' = int (sum_list (map length (current_chunk st')))"
    using a(4) f(1) f(2) by simp
  have c5: "char_offset st' = para_offs (pre @ [p])" using a(5) f(3) by simp
  have c6: "(\<exists>q\<in>set (current_chunk st'). cs < int (length q)) \<longrightarrow> length (current_chunk st') \<le> 2"
    unfolding f(1) using big by blast
  show ?thesis unfolding state_ok_def using c1 c2 c3 c4 c5 c6 by blast
qed

lemma state_ok_length:
  "state_ok cs pre st \<Longrightarrow>
   nat (paragraph_start_index st) + length (current_chunk st) = length pre"
  by (simp add: state_ok_def)

lemma drop_pred_length: "pre \<noteq> [] \<Longrightarrow> drop (length pre - Suc 0) pre = [last pre]"
proof -
  assume "pre \<noteq> []"
  then have "butlast pre @ [last pre] = pre" by simp
  then have "drop (length (butlast pre)) pre = [last pre]" by (metis append_eq_conv_conj)
  then show ?thesis by simp
qed

lemma state_ok_close:
  assumes ok: "state_ok cs pre st" and ne: "current_chunk st \<noteq> []"
    and st1: "st1 = close_chunk doc (int (length pre)) st"
  shows "state_ok cs pre st1"
    and "length (current_chunk st1) \<le> 1"
    and "chunks st1 = chunks st @ [emit doc st]"
    and "trim_overlap (current_chunk st) @ current_chunk st1 = current_chunk st"
    and "paragraph_start_index st1 = paragraph_start_index st + int (length (current_chunk st))
           - (if length (current_chunk st) > 1 then 1 else 0)"
proof -
  note a = state_okD [OF ok]
  have len: "nat (paragraph_start_index st) + length (current_chunk st) = length pre"
    using ok by (rule state_ok_length)
  from ne a(3) have pne: "pre \<noteq> []" by auto
  show "chunks st1 = chunks st @ [emit doc st]" by (simp add: st1 close_chunk_def)
  show "length (current_chunk st1) \<le> 1" by (simp add: st1 close_chunk_def)
  show "trim_overlap (current_chunk st) @ current_chunk st1 = current_chunk st"
    using ne by (simp add: st1 close_chunk_def trim_overlap_def)
  show "paragraph_start_index st1 = paragraph_start_index st + int (length (current_chunk st))
           - (if length (current_chunk st) > 1 then 1 else 0)"
  proof (cases "length (current_chunk st) > 1")
    case True
    then show ?thesis using len a(1) by (simp add: st1 close_chunk_def)
  next
    case False
    with ne have "length (current_chunk st) = 1" by (cases "current_chunk st") auto
    then show ?thesis using len a(1) by (simp add: st1 close_chunk_def)
  qed
  show "state_ok cs pre st1"
  proof (cases "length (current_chunk st) > 1")
    case True
    then have f: "current_chunk st1 = [last (current_chunk st)]"
      "current_length st1 = int (length (last (current_chunk st)))"
      "paragraph_start_index st1 = int (length pre) - 1"
      "char_offset st1 = char_offset st"
      by (simp_all add: st1 close_chunk_def)
    have lp: "1 \<le> length pre" using pne by (cases pre) simp_all
    have n: "nat (int (length pre) - 1) = length pre - 1" by simp
    have "last (current_chunk st) = last pre"
      using ne a(3) by (metis last_drop drop_eq_Nil not_le)
    then have c3: "current_chunk st1 = drop (nat (paragraph_start_index st1)) pre"
      using pne by (simp add: f n drop_pred_length)
    show ?thesis
    proof (rule state_okI)
      show "0 \<le> paragraph_start_index st1" using lp pne by (simp add: f)
      show "nat (paragraph_start_index st1) \<le> length pre" by (simp add: f)
      show "current_chunk st1 = drop (nat (paragraph_start_index st1)) pre" by (rule c3)
      show "current_length st1 = int (sum_list (map length (current_chunk st1)))" by (simp add: f)
      show "char_offset st1 = para_offs pre" using a(5) by (simp add: f)
      show "(\<exists>p\<in>set (current_chunk st1). cs < int (length p)) \<longrightarrow> length (current_chunk st1) \<le> 2"
        by (simp add: f)
    qed
  next
    case False
    then have f: "current_chunk st1 = []" "current_length st1 = 0"
      "paragraph_start_index st1 = int (length pre)" "char_offset st1 = char_offset st"
      by (simp_all add: st1 close_chunk_def)
    show ?thesis
    proof (rule state_okI)
      show "char_offset st1 = para_offs pre" using a(5) by (simp add: f)
    qed (simp_all add: f)
  qed
qed

lemma chunk_ok_emit:
  assumes ok: "state_ok cs pre st" and ne: "current_chunk st \<noteq> []"
  shows "chunk_ok doc cs pre (emit doc st) (current_chunk st)"
proof -
  note a = state_okD [OF ok]
  have len: "nat (paragraph_start_index st) + length (current_chunk st) = length pre"
    using ok by (rule state_ok_length)
  have t: "current_chunk st = take (length (current_chunk st)) (drop (nat (paragraph_start_index st)) pre)"
    using a(3) by simp
  define c where "c = emit doc st"
  have f: "chunk_text c = py_join blank_line (current_chunk st)" "doc_id c = doc"
    "paragraph_index c = paragraph_start_index st" "offset c = char_offset st"
    by (simp_all add: c_def emit_def)
  have o: "offset c = para_offs (take (nat (paragraph_index c) + length (current_chunk st)) pre)"
    unfolding f(3) len using a(5) f(4) by simp
  have le: "nat (paragraph_start_index st) + length (current_chunk st) \<le> length pre"
    using len by simp
  have "chunk_ok doc cs pre c (current_chunk st)"
    unfolding chunk_ok_def using f(1) f(2) ne a(1) le t o a(6) unfolding f(3) by blast
  then show ?thesis by (simp add: c_def)
qed

lemma loop_inv_step:
  assumes inv: "loop_inv doc cs pre bs st"
  shows "\<exists>bs'. loop_inv doc cs (pre @ [p]) bs' (chunk_step doc cs (int (length pre)) p st)"
proof -
  from inv have all2: "list_all2 (chunk_ok doc cs pre) (chunks st) bs"
    and ok: "state_ok cs pre st"
    and cat: "concat (map trim_overlap bs) @ current_chunk st = pre"
    and lk: "linked (zip (map paragraph_index (chunks st)) (map length bs)) (paragraph_start_index st)"
    by (simp_all add: loop_inv_def)
  have leq: "length (chunks st) = length bs" using all2 by (rule list_all2_lengthD)
  have all2': "list_all2 (chunk_ok doc cs (pre @ [p])) (chunks st) bs"
    using all2 by (rule list_all2_mono) (rule chunk_ok_mono)
  show ?thesis
  proof (cases "current_length st + int (length p) > cs \<and> current_chunk st \<noteq> []")
    case True
    then have ne: "current_chunk st \<noteq> []" by simp
    define st1 where "st1 = close_chunk doc (int (length pre)) st"
    define st' where "st' = st1\<lparr>current_chunk := current_chunk st1 @ [p],
               current_length := current_length st1 + int (length p),
               char_offset := char_offset st1 + int (length p) + 2\<rparr>"
    have step: "chunk_step doc cs (int (length pre)) p st = st'"
      using True by (simp add: chunk_step_def st'_def st1_def Let_def)
    note cl = state_ok_close [OF ok ne st1_def]
    have small1: "length (current_chunk st1) \<le> 1 \<or> current_length st1 + int (length p) \<le> cs"
      using cl(2) by simp
    have ok': "state_ok cs (pre @ [p]) st'"
      by (rule state_ok_append [OF cl(1) small1 st'_def])
    have f: "chunks st' = chunks st @ [emit doc st]"
      "current_chunk st' = current_chunk st1 @ [p]"
      "paragraph_start_index st' = paragraph_start_index st1"
      using cl(3) by (simp_all add: st'_def)
    have "chunk_ok doc cs (pre @ [p]) (emit doc st) (current_chunk st)"
      using chunk_ok_emit [OF ok ne] by (rule chunk_ok_mono)
    with all2' have i1: "list_all2 (chunk_ok doc cs (pre @ [p])) (chunks st') (bs @ [current_chunk st])"
      unfolding f(1) by (intro list_all2_appendI) simp_all
    have i3: "concat (map trim_overlap (bs @ [current_chunk st])) @ current_chunk st' = pre @ [p]"
      using cat cl(4) by (simp add: f(2))
    have z: "zip (map paragraph_index (chunks st')) (map length (bs @ [current_chunk st]))
        = zip (map paragraph_index (chunks st)) (map length bs)
          @ [(paragraph_start_index st, length (current_chunk st))]"
      using leq by (simp add: f(1) emit_def)
    have i4: "linked (zip (map paragraph_index (chunks st')) (map length (bs @ [current_chunk st])))
        (paragraph_start_index st')"
      unfolding z f(3) using lk cl(5) by (rule linked_snoc)
    have "loop_inv doc cs (pre @ [p]) (bs @ [current_chunk st]) st'"
      unfolding loop_inv_def using i1 ok' i3 i4 by (simp add: f(2))
    then show ?thesis unfolding step by blast
  next
    case False
    define st' where "st' = st\<lparr>current_chunk := current_chunk st @ [p],
               current_length := current_length st + int (length p),
               char_offset := char_offset st + int (length p) + 2\<rparr>"
    have step: "chunk_step doc cs (int (length pre)) p st = st'"
      unfolding chunk_step_def Let_def st'_def by (simp only: if_not_P [OF False])
    have small: "length (current_chunk st) \<le> 1 \<or> current_length st + int (length p) \<le> cs"
      using False by auto
    have ok': "state_ok cs (pre @ [p]) st'"
      using ok small st'_def by (rule state_ok_append)
    have f: "chunks st' = chunks st"
      "current_chunk st' = current_chunk st @ [p]"
      "paragraph_start_index st' = paragraph_start_index st"
      by (simp_all add: st'_def)
    have "loop_inv doc cs (pre @ [p]) bs st'"
      unfolding loop_inv_def using all2' ok' cat lk by (simp add: f)
    then show ?thesis unfolding step by blast
  qed
qed

lemma loop_inv_loop:
  "loop_inv doc cs pre bs st \<Longrightarrow>
   \<exists>bs'. loop_inv doc cs (pre @ rest) bs' (chunk_loop doc cs (int (length pre)) rest st)"
proof (induction rest arbitrary: pre bs st)
  case Nil
  then show ?case by auto
next
  case (Cons p rest)
  from loop_inv_step [OF Cons.prems] obtain bs1
    where "loop_inv doc cs (pre @ [p]) bs1 (chunk_step doc cs (int (length pre)) p st)" by blast
  from Cons.IH [OF this] show ?case by (simp add: add.commute)
qed

lemma loop_inv_init: "loop_inv doc cs [] [] init_state"
  by (simp add: loop_inv_def state_ok_def init_state_def)

lemma py_join_cons_hd: "ys \<noteq> [] \<Longrightarrow> py_join sep (cons_hd x ys) = x # py_join sep ys"
proof (cases ys)
  case Nil
  assume "ys \<noteq> []"
  with Nil show ?thesis by simp
next
  case (Cons l ls)
  assume "ys \<noteq> []"
  show ?thesis by (cases ls) (simp_all add: Cons)
qed

lemma py_join_Nil_Cons: "ys \<noteq> [] \<Longrightarrow> py_join sep ([] # ys) = sep @ py_join sep ys"
  by (cases ys) simp_all

lemma join_split: "sep \<noteq> [] \<Longrightarrow> py_join sep (py_split sep s) = s"
proof (induction sep s rule: py_split.induct)
  case (1 sep s)
  show ?case
  proof (cases "s = []")
    case True then show ?thesis by simp
  next
    case ne: False
    show ?thesis
    proof (cases "prefix sep s")
      case True
      then have "sep @ drop (length sep) s = s" by (auto simp: prefix_def)
      moreover have "py_join sep (py_split sep (drop (length sep) s)) = drop (length sep) s"
        using 1(1) ne True 1(3) by simp
      ultimately show ?thesis
        using ne True 1(3) by (subst py_split.simps) (simp add: py_join_Nil_Cons)
    next
      case False
      have "py_join sep (py_split sep (tl s)) = tl s" using 1(2) ne False 1(3) by simp
      then show ?thesis
        using ne False by (subst py_split.simps) (simp add: py_join_cons_hd)
    qed
  qed
qed

lemma set_py_join: "set (py_join sep xs) \<subseteq> set sep \<union> \<Union> (set ` set xs)"
  by (induction sep xs rule: py_join.induct) auto

lemma paragraphs_of_Nil: "paragraphs_of s = [] \<Longrightarrow> strip s = []"
proof -
  assume "paragraphs_of s = []"
  then have all: "\<forall>q\<in>set (py_split blank_line s). \<forall>c\<in>set q. isspace c"
    by (simp add: paragraphs_of_def filter_empty_conv strip_eq_Nil_iff)
  have "set s \<subseteq> set blank_line \<union> \<Union> (set ` set (py_split blank_line s))"
    using set_py_join [of blank_line "py_split blank_line s"] by (simp add: join_split)
  with all have "\<forall>c\<in>set s. isspace c" by (auto simp: blank_line_def)
  then show ?thesis by (simp add: strip_eq_Nil_iff)
qed

lemma chunk_loop_run:
  "\<exists>bs. loop_inv doc cs ps bs (chunk_loop doc cs 0 ps init_state)"
  using loop_inv_loop [OF loop_inv_init, of doc cs ps] by simp

lemma list_all2_map_eq: "list_all2 (\<lambda>c b. f c = b) xs ys \<Longrightarrow> map f xs = ys"
  by (induction xs ys rule: list_all2_induct) simp_all

lemma chunk_ok_paras:
  assumes "chunk_ok doc cs ps c b" and wf: "\<forall>p\<in>set ps. wf_para p"
  shows "paragraphs_of (chunk_text c) = b"
proof -
  from assms(1) have t: "chunk_text c = py_join blank_line b"
    and b: "b = take (length b) (drop (nat (paragraph_index c)) ps)"
    unfolding chunk_ok_def by blast+
  have "set b \<subseteq> set ps"
    by (subst b) (meson set_take_subset set_drop_subset subset_trans)
  with wf have "\<forall>p\<in>set b. wf_para p" by blast
  then show ?thesis unfolding t by (rule paragraphs_of_join)
qed

lemma chunker_structure:
  fixes t doc :: str and cs ov :: int
  assumes ne: "paragraphs_of (strip t) \<noteq> []"
  defines "ps \<equiv> paragraphs_of (strip t)"
  defines "out \<equiv> preprocess_and_chunk t doc cs ov"
  defines "bs \<equiv> map (\<lambda>c. paragraphs_of (chunk_text c)) out"
  shows "list_all2 (chunk_ok doc cs ps) out bs"
    and "dedup_overlap bs = ps"
    and "\<exists>nxt. linked (map (\<lambda>c. (paragraph_index c, length (paragraphs_of (chunk_text c)))) out) nxt"
proof -
  define st where "st = chunk_loop doc cs 0 ps init_state"
  obtain bs0 where inv: "loop_inv doc cs ps bs0 st"
    unfolding st_def using chunk_loop_run by blast
  from inv have all2: "list_all2 (chunk_ok doc cs ps) (chunks st) bs0"
    and ok: "state_ok cs ps st"
    and cne: "current_chunk st \<noteq> []"
    and cat: "concat (map trim_overlap bs0) @ current_chunk st = ps"
    and lk: "linked (zip (map paragraph_index (chunks st)) (map length bs0)) (paragraph_start_index st)"
    using ne by (simp_all add: loop_inv_def ps_def)
  have out: "out = chunks st @ [emit doc st]"
    using cne by (simp add: out_def preprocess_and_chunk_def Let_def st_def ps_def)
  let ?bs = "bs0 @ [current_chunk st]"
  have a: "list_all2 (chunk_ok doc cs ps) out ?bs"
    unfolding out using all2 chunk_ok_emit [OF ok cne] by (intro list_all2_appendI) simp_all
  have wf: "\<forall>p\<in>set ps. wf_para p" unfolding ps_def using paragraphs_of_wf by blast
  have "list_all2 (\<lambda>c b. paragraphs_of (chunk_text c) = b) out ?bs"
    using a by (rule list_all2_mono) (rule chunk_ok_paras [OF _ wf])
  then have bs: "bs = ?bs" unfolding bs_def by (rule list_all2_map_eq)
  show "list_all2 (chunk_ok doc cs ps) out bs" unfolding bs by (rule a)
  show "dedup_overlap bs = ps" unfolding bs using cat by (simp add: dedup_snoc)
  have leq: "length (chunks st) = length bs0" using all2 by (rule list_all2_lengthD)
  have z: "zip (map paragraph_index out) (map length ?bs)
        = zip (map paragraph_index (chunks st)) (map length bs0)
          @ [(paragraph_start_index st, length (current_chunk st))]"
    using leq by (simp add: out emit_def)
  have "linked (zip (map paragraph_index out) (map length ?bs))
      (paragraph_start_index st + int (length (current_chunk st))
         - (if length (current_chunk st) > 1 then 1 else 0))"
    unfolding z using lk by (rule linked_snoc) simp
  moreover have "zip (map paragraph_index out) (map length ?bs)
      = map (\<lambda>c. (paragraph_index c, length (paragraphs_of (chunk_text c)))) out"
    unfolding bs [symmetric] bs_def by (simp add: zip_map_map zip_same_conv_map)
  ultimately show "\<exists>nxt. linked (map (\<lambda>c. (paragraph_index c, length (paragraphs_of (chunk_text c)))) out) nxt"
    by auto
qed

lemma chunker_degenerate:
  assumes "paragraphs_of (strip t) = []"
  shows "preprocess_and_chunk t doc cs ov =
    [\<lparr>chunk_text = [], doc_id = doc, paragraph_index = 0, offset = 0\<rparr>]"
proof -
  from assms have "strip (strip t) = []" by (rule paragraphs_of_Nil)
  then have "strip t = []" by simp
  then show ?thesis using assms
    by (simp add: preprocess_and_chunk_def Let_def init_state_def)
qed

lemma set_dedup_overlap: "p \<in> set (dedup_overlap bs) \<Longrightarrow> \<exists>b\<in>set bs. p \<in> set b"
  by (induction bs rule: dedup_overlap.induct)
     (auto simp: trim_overlap_def dest: in_set_butlastD split: if_splits)

lemma linked_consecutive:
  "linked (map (\<lambda>c. (f c, g c)) out) nxt \<Longrightarrow> (c, c') \<in> set (zip out (tl out)) \<Longrightarrow>
   f c' = f c + int (g c) - (if g c > 1 then 1 else 0)"
  by (induction out rule: induct_list012) auto

lemmas chunk_eval = preprocess_and_chunk_def paragraphs_of_def of_ascii_def blank_line_def
  py_split_Cons strip_def isspace_def init_state_def chunk_step_def close_chunk_def emit_def Let_def

text \<open>
  Claim C1.  The claim: every chunk carries as \<open>offset\<close> the running character total at the
  moment its buffer was opened, so the text \<open>"Name: Alice\n\nAge: 30"\<close> with
  \<open>chunk_size = 2000\<close> gives one chunk with paragraph index 0 and offset 0.  The code
  writes \<open>char_offset\<close> into the chunk when the buffer is closed, after every paragraph of
  the chunk has been added to it: on this input the single chunk has paragraph index 0 and
  offset 22 (11 + 2 + 7 + 2), not 0.
\<close>

theorem chunk_offset_example:
  "preprocess_and_chunk (of_ascii ''Name: Alice'' @ blank_line @ of_ascii ''Age: 30'')
     (of_ascii ''D1'') 2000 200 =
   [\<lparr>chunk_text = of_ascii ''Name: Alice'' @ blank_line @ of_ascii ''Age: 30'',
     doc_id = of_ascii ''D1'', paragraph_index = 0, offset = 22\<rparr>]"
  by (simp add: chunk_eval)

lemma chunk_example_three:
  "preprocess_and_chunk
     (of_ascii ''ab'' @ blank_line @ of_ascii ''cd'' @ blank_line @ of_ascii ''efghijk'')
     (of_ascii ''D1'') 5 ov =
   [\<lparr>chunk_text = of_ascii ''ab'' @ blank_line @ of_ascii ''cd'',
     doc_id = of_ascii ''D1'', paragraph_index = 0, offset = 8\<rparr>,
    \<lparr>chunk_text = of_ascii ''cd'' @ blank_line @ of_ascii ''efghijk'',
     doc_id = of_ascii ''D1'', paragraph_index = 1, offset = 17\<rparr>]"
  by (simp add: chunk_eval)

lemma chunk_example_two:
  "preprocess_and_chunk (of_ascii ''ab'' @ blank_line @ of_ascii ''cd'') (of_ascii ''D1'') 1 ov =
   [\<lparr>chunk_text = of_ascii ''ab'', doc_id = of_ascii ''D1'', paragraph_index = 0, offset = 4\<rparr>,
    \<lparr>chunk_text = of_ascii ''cd'', doc_id = of_ascii ''D1'', paragraph_index = 1, offset = 8\<rparr>]"
  by (simp add: chunk_eval)

lemma paragraphs_example_three:
  "paragraphs_of (strip (of_ascii ''ab'' @ blank_line @ of_ascii ''cd'' @ blank_line @ of_ascii ''efghijk''))
   = [of_ascii ''ab'', of_ascii ''cd'', of_ascii ''efghijk'']"
  "paragraphs_of (of_ascii ''ab'' @ blank_line @ of_ascii ''cd'') = [of_ascii ''ab'', of_ascii ''cd'']"
  "paragraphs_of (of_ascii ''cd'' @ blank_line @ of_ascii ''efghijk'') = [of_ascii ''cd'', of_ascii ''efghijk'']"
  "paragraphs_of (of_ascii ''ab'') = [of_ascii ''ab'']"
  "paragraphs_of (of_ascii ''cd'') = [of_ascii ''cd'']"
  by (simp_all add: chunk_eval)

text \<open>
  Claim C3 (chunk coverage).  For every text, document id, chunk size and overlap argument:
  every paragraph of the input occurs among the paragraphs of some emitted chunk, and the
  paragraph lists of the emitted chunks, in emission order and with the one duplicated
  paragraph of each overlap removed (\<open>dedup_overlap\<close>), concatenate to the paragraph
  sequence of the input.
\<close>

theorem chunk_coverage:
  "(\<forall>p\<in>set (paragraphs_of (strip t)).
      \<exists>c\<in>set (preprocess_and_chunk t doc cs ov). p \<in> set (paragraphs_of (chunk_text c))) \<and>
   dedup_overlap (map (\<lambda>c. paragraphs_of (chunk_text c)) (preprocess_and_chunk t doc cs ov))
     = paragraphs_of (strip t)"
proof -
  let ?out = "preprocess_and_chunk t doc cs ov"
  let ?ps = "paragraphs_of (strip t)"
  have d: "dedup_overlap (map (\<lambda>c. paragraphs_of (chunk_text c)) ?out) = ?ps"
  proof (cases "?ps = []")
    case True
    then show ?thesis by (simp add: chunker_degenerate paragraphs_of_def)
  next
    case False
    then show ?thesis by (rule chunker_structure(2))
  qed
  have "\<exists>c\<in>set ?out. p \<in> set (paragraphs_of (chunk_text c))" if "p \<in> set ?ps" for p
    using that set_dedup_overlap [of p "map (\<lambda>c. paragraphs_of (chunk_text c)) ?out"]
    unfolding d by auto
  with d show ?thesis by blast
qed

theorem chunk_coverage_witness:
  "dedup_overlap (map (\<lambda>c. paragraphs_of (chunk_text c))
     (preprocess_and_chunk
        (of_ascii ''ab'' @ blank_line @ of_ascii ''cd'' @ blank_line @ of_ascii ''efghijk'')
        (of_ascii ''D1'') 5 200))
   = [of_ascii ''ab'', of_ascii ''cd'', of_ascii ''efghijk''] \<and>
   map (\<lambda>c. paragraphs_of (chunk_text c))
     (preprocess_and_chunk
        (of_ascii ''ab'' @ blank_line @ of_ascii ''cd'' @ blank_line @ of_ascii ''efghijk'')
        (of_ascii ''D1'') 5 200)
   = [[of_ascii ''ab'', of_ascii ''cd''], [of_ascii ''cd'', of_ascii ''efghijk'']]"
  using chunk_coverage [of "of_ascii ''ab'' @ blank_line @ of_ascii ''cd'' @ blank_line @ of_ascii ''efghijk''"
      "of_ascii ''D1''" 5 200]
  by (simp add: paragraphs_example_three chunk_example_three)

lemma list_all2_map_mem: "list_all2 P xs (map f xs) \<Longrightarrow> x \<in> set xs \<Longrightarrow> P x (f x)"
  by (simp add: list_all2_map2 list_all2_same)

lemma chunk_ok_member:
  assumes "paragraphs_of (strip t) \<noteq> []" and "c \<in> set (preprocess_and_chunk t doc cs ov)"
  shows "chunk_ok doc cs (paragraphs_of (strip t)) c (paragraphs_of (chunk_text c))"
  using chunker_structure(1) [OF assms(1), of doc cs ov] assms(2)
  by (rule list_all2_map_mem)

text \<open>
  Claim C4 (paragraph atomicity), as the code has it.  Every emitted chunk's text is the
  blank-line join of a contiguous run of whole input paragraphs, the run that starts at the
  chunk's \<open>paragraph_index\<close>; so no paragraph is split, however long.  A chunk that holds a
  paragraph longer than \<open>chunk_size\<close> holds at most two paragraphs: the long one and at most
  one paragraph next to it in the document (the one before it, or the one after it).
\<close>

theorem paragraph_atomicity:
  assumes "c \<in> set (preprocess_and_chunk t doc cs ov)"
  shows "chunk_text c = py_join blank_line (paragraphs_of (chunk_text c)) \<and>
    0 \<le> paragraph_index c \<and>
    paragraphs_of (chunk_text c) =
      take (length (paragraphs_of (chunk_text c)))
        (drop (nat (paragraph_index c)) (paragraphs_of (strip t))) \<and>
    ((\<exists>p\<in>set (paragraphs_of (chunk_text c)). cs < int (length p)) \<longrightarrow>
       length (paragraphs_of (chunk_text c)) \<le> 2)"
proof (cases "paragraphs_of (strip t) = []")
  case True
  with assms have "c = \<lparr>chunk_text = [], doc_id = doc, paragraph_index = 0, offset = 0\<rparr>"
    by (simp add: chunker_degenerate)
  then show ?thesis by (simp add: paragraphs_of_def)
next
  case False
  from chunk_ok_member [OF False assms] show ?thesis
    unfolding chunk_ok_def by blast
qed

theorem paragraph_atomicity_witness:
  "\<lparr>chunk_text = of_ascii ''cd'' @ blank_line @ of_ascii ''efghijk'',
     doc_id = of_ascii ''D1'', paragraph_index = 1, offset = 17\<rparr>
   \<in> set (preprocess_and_chunk
        (of_ascii ''ab'' @ blank_line @ of_ascii ''cd'' @ blank_line @ of_ascii ''efghijk'')
        (of_ascii ''D1'') 5 200) \<and>
   of_ascii ''cd'' @ blank_line @ of_ascii ''efghijk''
     = py_join blank_line (paragraphs_of (of_ascii ''cd'' @ blank_line @ of_ascii ''efghijk'')) \<and>
   paragraphs_of (of_ascii ''cd'' @ blank_line @ of_ascii ''efghijk'') =
     take (length (paragraphs_of (of_ascii ''cd'' @ blank_line @ of_ascii ''efghijk'')))
       (drop 1 (paragraphs_of (strip
          (of_ascii ''ab'' @ blank_line @ of_ascii ''cd'' @ blank_line @ of_ascii ''efghijk'')))) \<and>
   (5::int) < int (length (of_ascii ''efghijk'')) \<and>
   length (paragraphs_of (of_ascii ''cd'' @ blank_line @ of_ascii ''efghijk'')) \<le> 2"
proof -
  have m: "\<lparr>chunk_text = of_ascii ''cd'' @ blank_line @ of_ascii ''efghijk'',
     doc_id = of_ascii ''D1'', paragraph_index = 1, offset = 17\<rparr>
   \<in> set (preprocess_and_chunk
        (of_ascii ''ab'' @ blank_line @ of_ascii ''cd'' @ blank_line @ of_ascii ''efghijk'')
        (of_ascii ''D1'') 5 200)"
    by (simp add: chunk_example_three)
  have l: "(5::int) < int (length (of_ascii ''efghijk''))" by (simp add: of_ascii_def)
  from paragraph_atomicity [OF m] m l show ?thesis
    by (simp add: paragraphs_example_three)
qed

theorem paragraph_atomicity_counterexample:
  "map (\<lambda>c. paragraphs_of (chunk_text c))
     (preprocess_and_chunk
        (of_ascii ''ab'' @ blank_line @ of_ascii ''cd'' @ blank_line @ of_ascii ''efghijk'')
        (of_ascii ''D1'') 5 200)
   = [[of_ascii ''ab'', of_ascii ''cd''], [of_ascii ''cd'', of_ascii ''efghijk'']] \<and>
   (5::int) < int (length (of_ascii ''efghijk''))"
  by (simp add: chunk_example_three paragraphs_example_three) (simp add: of_ascii_def)

lemma zip_tl_members: "(c, c') \<in> set (zip out (tl out)) \<Longrightarrow> c \<in> set out \<and> c' \<in> set out"
  by (cases out) (auto dest: set_zip_leftD set_zip_rightD)

lemma slice_last_hd:
  assumes B: "B = take (length B) (drop i ps)" and iB: "i + length B \<le> length ps"
    and B': "B' = take (length B') (drop (i + length B - 1) ps)" and ne: "B' \<noteq> []"
    and big: "1 < length B"
  shows "hd B' = last B"
proof -
  have Bne: "B \<noteq> []" using big by auto
  have "last B = B ! (length B - 1)" using Bne by (rule last_conv_nth)
  also have "\<dots> = take (length B) (drop i ps) ! (length B - 1)" using B by simp
  also have "\<dots> = ps ! (i + (length B - 1))" using big iB by simp
  finally have l: "last B = ps ! (i + length B - 1)" using big by simp
  have "hd B' = B' ! 0" using ne by (simp add: hd_conv_nth)
  also have "\<dots> = take (length B') (drop (i + length B - 1) ps) ! 0" using B' by simp
  also have "\<dots> = ps ! (i + length B - 1)" using ne iB big by simp
  finally show ?thesis using l by simp
qed

text \<open>
  Claim C10, as the code has it.  The \<open>overlap\<close> argument is never read: any two values give
  the same chunk sequence.  Between consecutive chunks the overlap applied is decided by the
  closed buffer alone: one paragraph (the last of the earlier chunk, repeated as the first of
  the later one) when the earlier chunk holds more than one paragraph, and none when it holds
  exactly one.
\<close>

theorem overlap_parameter_unused:
  "preprocess_and_chunk t doc cs o1 = preprocess_and_chunk t doc cs o2 \<and>
   (\<forall>(c, c')\<in>set (zip (preprocess_and_chunk t doc cs o1) (tl (preprocess_and_chunk t doc cs o1))).
      overlap_paragraphs c c' = (if length (paragraphs_of (chunk_text c)) > 1 then 1 else 0) \<and>
      (length (paragraphs_of (chunk_text c)) > 1 \<longrightarrow>
         hd (paragraphs_of (chunk_text c')) = last (paragraphs_of (chunk_text c))))"
proof -
  let ?out = "preprocess_and_chunk t doc cs o1"
  let ?ps = "paragraphs_of (strip t)"
  have ind: "preprocess_and_chunk t doc cs o1 = preprocess_and_chunk t doc cs o2"
    by (simp add: preprocess_and_chunk_def)
  have pair: "overlap_paragraphs c c' = (if length (paragraphs_of (chunk_text c)) > 1 then 1 else 0) \<and>
      (length (paragraphs_of (chunk_text c)) > 1 \<longrightarrow>
         hd (paragraphs_of (chunk_text c')) = last (paragraphs_of (chunk_text c)))"
    if z: "(c, c') \<in> set (zip ?out (tl ?out))" for c c'
  proof (cases "?ps = []")
    case True
    then have "zip ?out (tl ?out) = []" by (simp add: chunker_degenerate)
    with z show ?thesis by simp
  next
    case False
    let ?B = "paragraphs_of (chunk_text c)"
    let ?B' = "paragraphs_of (chunk_text c')"
    from chunker_structure(3) [OF False, of doc cs o1] obtain nxt where
      "linked (map (\<lambda>c. (paragraph_index c, length (paragraphs_of (chunk_text c)))) ?out) nxt"
      by blast
    from linked_consecutive [OF this z]
    have idx: "paragraph_index c' = paragraph_index c + int (length ?B) - (if 1 < length ?B then 1 else 0)" .
    then have ov: "overlap_paragraphs c c' = (if length ?B > 1 then 1 else 0)"
      by (simp add: overlap_paragraphs_def)
    from zip_tl_members [OF z] have mc: "c \<in> set ?out" and mc': "c' \<in> set ?out" by simp_all
    note okc = chunk_ok_member [OF False mc] and okc' = chunk_ok_member [OF False mc']
    have "hd ?B' = last ?B" if big: "1 < length ?B"
    proof (rule slice_last_hd [where i = "nat (paragraph_index c)" and ps = ?ps])
      show "?B = take (length ?B) (drop (nat (paragraph_index c)) ?ps)"
        using okc unfolding chunk_ok_def by blast
      show "nat (paragraph_index c) + length ?B \<le> length ?ps"
        using okc unfolding chunk_ok_def by blast
      have nn: "0 \<le> paragraph_index c" using okc unfolding chunk_ok_def by blast
      have "nat (paragraph_index c') = nat (paragraph_index c) + length ?B - 1"
        using idx big nn by simp
      moreover have "?B' = take (length ?B') (drop (nat (paragraph_index c')) ?ps)"
        using okc' unfolding chunk_ok_def by blast
      ultimately show "?B' = take (length ?B') (drop (nat (paragraph_index c) + length ?B - 1) ?ps)"
        by simp
      show "?B' \<noteq> []" using okc' unfolding chunk_ok_def by blast
      show "1 < length ?B" by (rule big)
    qed
    with ov show ?thesis by blast
  qed
  from ind pair show ?thesis by blast
qed

theorem overlap_parameter_unused_witness:
  "preprocess_and_chunk
     (of_ascii ''ab'' @ blank_line @ of_ascii ''cd'' @ blank_line @ of_ascii ''efghijk'')
     (of_ascii ''D1'') 5 7 =
   preprocess_and_chunk
     (of_ascii ''ab'' @ blank_line @ of_ascii ''cd'' @ blank_line @ of_ascii ''efghijk'')
     (of_ascii ''D1'') 5 200 \<and>
   overlap_paragraphs
     \<lparr>chunk_text = of_ascii ''ab'' @ blank_line @ of_ascii ''cd'',
       doc_id = of_ascii ''D1'', paragraph_index = 0, offset = 8\<rparr>
     \<lparr>chunk_text = of_ascii ''cd'' @ blank_line @ of_ascii ''efghijk'',
       doc_id = of_ascii ''D1'', paragraph_index = 1, offset = 17\<rparr> = 1"
  using overlap_parameter_unused
    [of "of_ascii ''ab'' @ blank_line @ of_ascii ''cd'' @ blank_line @ of_ascii ''efghijk''"
      "of_ascii ''D1''" 5 7 200]
  by (simp add: chunk_example_three paragraphs_example_three)

theorem overlap_parameter_unused_counterexample:
  "preprocess_and_chunk (of_ascii ''ab'' @ blank_line @ of_ascii ''cd'') (of_ascii ''D1'') 1 200 =
   [\<lparr>chunk_text = of_ascii ''ab'', doc_id = of_ascii ''D1'', paragraph_index = 0, offset = 4\<rparr>,
    \<lparr>chunk_text = of_ascii ''cd'', doc_id = of_ascii ''D1'', paragraph_index = 1, offset = 8\<rparr>] \<and>
   overlap_paragraphs
     \<lparr>chunk_text = of_ascii ''ab'', doc_id = of_ascii ''D1'', paragraph_index = 0, offset = 4\<rparr>
     \<lparr>chunk_text = of_ascii ''cd'', doc_id = of_ascii ''D1'', paragraph_index = 1, offset = 8\<rparr> = 0"
  by (simp add: chunk_example_two overlap_paragraphs_def paragraphs_example_three)

section \<open>Properties of the orchestrator and the projector\<close>

lemma extract_loop_append:
  "extract_loop loads llm ks api acc logged (pre @ rest) =
     (case extract_loop loads llm ks api acc logged pre of
        (Inl err, l) \<Rightarrow> (Inl err, l)
      | (Inr a, l) \<Rightarrow> extract_loop loads llm ks api a l rest)"
  by (induction pre arbitrary: acc logged) (auto split: prod.splits sum.splits)

lemma convert_length [simp]: "length (convert_to_three_columns rs) = length rs"
  by (induction rs) simp_all

lemma convert_nth: "i < length rs \<Longrightarrow> convert_to_three_columns rs ! i = convert_item (rs ! i)"
  by (induction rs arbitrary: i) (auto simp: nth_Cons split: nat.splits)

lemma ascii_keys_distinct:
  "of_ascii ''key'' \<noteq> of_ascii ''value''" "of_ascii ''key'' \<noteq> of_ascii ''comments''"
  "of_ascii ''value'' \<noteq> of_ascii ''key''" "of_ascii ''value'' \<noteq> of_ascii ''comments''"
  "of_ascii ''comments'' \<noteq> of_ascii ''key''" "of_ascii ''comments'' \<noteq> of_ascii ''value''"
  "of_ascii ''raw_value'' \<notin> {of_ascii ''key'', of_ascii ''value'', of_ascii ''comments''}"
  "of_ascii ''provenance'' \<notin> {of_ascii ''key'', of_ascii ''value'', of_ascii ''comments''}"
  "of_ascii ''confidence'' \<notin> {of_ascii ''key'', of_ascii ''value'', of_ascii ''comments''}"
  by (simp_all add: of_ascii_def)

text \<open>
  Claim C8 (projection totality and field mapping).  Projection gives one row per record, in
  the same order; row \<open>i\<close> has exactly the columns key, value and comments, holding the
  record's value for that key, or \<open>"unknown_key"\<close>, \<open>""\<close> and \<open>""\<close> when the record lacks the
  key; \<open>raw_value\<close>, \<open>provenance\<close> and \<open>confidence\<close> are not in the row.
\<close>

theorem projection_totality:
  "length (convert_to_three_columns rs) = length rs \<and>
   (\<forall>i<length rs.
      map fst (convert_to_three_columns rs ! i)
        = [of_ascii ''key'', of_ascii ''value'', of_ascii ''comments''] \<and>
      map_of (convert_to_three_columns rs ! i) (of_ascii ''key'')
        = Some (case map_of (rs ! i) (of_ascii ''key'') of
                  None \<Rightarrow> JStr (of_ascii ''unknown_key'') | Some v \<Rightarrow> v) \<and>
      map_of (convert_to_three_columns rs ! i) (of_ascii ''value'')
        = Some (case map_of (rs ! i) (of_ascii ''value'') of None \<Rightarrow> JStr [] | Some v \<Rightarrow> v) \<and>
      map_of (convert_to_three_columns rs ! i) (of_ascii ''comments'')
        = Some (case map_of (rs ! i) (of_ascii ''comments'') of None \<Rightarrow> JStr [] | Some v \<Rightarrow> v) \<and>
      map_of (convert_to_three_columns rs ! i) (of_ascii ''raw_value'') = None \<and>
      map_of (convert_to_three_columns rs ! i) (of_ascii ''provenance'') = None \<and>
      map_of (convert_to_three_columns rs ! i) (of_ascii ''confidence'') = None)"
  using ascii_keys_distinct by (simp add: convert_nth convert_item_def dict_get_def)

theorem projection_totality_witness:
  "length (convert_to_three_columns
     [[(of_ascii ''key'', JStr (of_ascii ''name'')), (of_ascii ''value'', JStr (of_ascii ''Alice'')),
       (of_ascii ''comments'', JStr (of_ascii ''given name'')),
       (of_ascii ''provenance'', JStr (of_ascii ''D1:0:0-11'')), (of_ascii ''confidence'', JFloat (9 / 10))],
      [(of_ascii ''value'', JStr (of_ascii ''30''))]]) = 2 \<and>
   map_of (convert_to_three_columns
     [[(of_ascii ''key'', JStr (of_ascii ''name'')), (of_ascii ''value'', JStr (of_ascii ''Alice'')),
       (of_ascii ''comments'', JStr (of_ascii ''given name'')),
       (of_ascii ''provenance'', JStr (of_ascii ''D1:0:0-11'')), (of_ascii ''confidence'', JFloat (9 / 10))],
      [(of_ascii ''value'', JStr (of_ascii ''30''))]] ! 1) (of_ascii ''key'')
     = Some (JStr (of_ascii ''unknown_key'')) \<and>
   map_of (convert_to_three_columns
     [[(of_ascii ''key'', JStr (of_ascii ''name'')), (of_ascii ''value'', JStr (of_ascii ''Alice'')),
       (of_ascii ''comments'', JStr (of_ascii ''given name'')),
       (of_ascii ''provenance'', JStr (of_ascii ''D1:0:0-11'')), (of_ascii ''confidence'', JFloat (9 / 10))],
      [(of_ascii ''value'', JStr (of_ascii ''30''))]] ! 0) (of_ascii ''provenance'') = None"
proof -
  let ?rs = "[[(of_ascii ''key'', JStr (of_ascii ''name'')), (of_ascii ''value'', JStr (of_ascii ''Alice'')),
       (of_ascii ''comments'', JStr (of_ascii ''given name'')),
       (of_ascii ''provenance'', JStr (of_ascii ''D1:0:0-11'')), (of_ascii ''confidence'', JFloat (9 / 10))],
      [(of_ascii ''value'', JStr (of_ascii ''30''))]]"
  note l = projection_totality [of ?rs, THEN conjunct1]
  note q0 = projection_totality [of ?rs, THEN conjunct2, rule_format, of 0]
  note q1 = projection_totality [of ?rs, THEN conjunct2, rule_format, of 1]
  show ?thesis using l q0 q1 by (simp add: of_ascii_def)
qed

lemmas extract_eval = extract_with_gemini_def validate_extractions_def clean_response_def
  default_provenance_def empty_warning_def keys_hint_def reraise_def decode_error_def fence_def
  show_int_def show_nat.simps sublist_code of_ascii_def strip_def isspace_def py_split_Cons Let_def

text \<open>
  Claim C5 (provenance back-fill).  The claim: a record without provenance, or with one that
  does not match the shape \<open>doc_id:paragraph_index:char_start-char_end\<close>, gets the default
  \<open>doc_id:paragraph_index:0-len(chunk_text)\<close>.  The code (line 223) replaces a provenance
  that is missing or falsy, and otherwise only looks for a \<open>':'\<close> in it.  On a decoded
  response of two records for the chunk \<open>"Name: Alice"\<close> of document \<open>D1\<close>, the record
  without provenance gets \<open>"D1:0:0-11"\<close>, and the record whose provenance is the phrase
  \<open>"Name: Alice"\<close>, which is not of the shape, keeps it.
\<close>

theorem provenance_shape_unchecked:
  "\<not> spec_provenance_shape (of_ascii ''Name: Alice'') \<and>
   extract_with_gemini
     (\<lambda>s. Inr (JArr [JObj [(of_ascii ''key'', JStr (of_ascii ''name''))],
                      JObj [(of_ascii ''key'', JStr (of_ascii ''name'')),
                            (of_ascii ''provenance'', JStr (of_ascii ''Name: Alice''))]]))
     (\<lambda>r. Inr (Some (of_ascii ''[...]'')))
     (of_ascii ''Name: Alice'') (of_ascii ''D1'') 0 0 None (Some (of_ascii ''k''))
   = (Inr [[(of_ascii ''key'', JStr (of_ascii ''name'')),
            (of_ascii ''provenance'', JStr (of_ascii ''D1:0:0-11''))],
           [(of_ascii ''key'', JStr (of_ascii ''name'')),
            (of_ascii ''provenance'', JStr (of_ascii ''Name: Alice''))]], [])"
  by (simp add: spec_provenance_shape_def all_digits_def extract_eval)

text \<open>
  Claim C6 (decode failure).  When the response for a chunk does not decode, the call for
  that chunk raises \<open>ValueError\<close> with the message
  \<open>"Failed to parse JSON response from Gemini API. Response: " + shown + "\nError: " + e\<close>,
  where \<open>e\<close> is the decoder's error text and \<open>shown\<close>, at most 500 characters long, is the
  first 500 characters of the cleaned response text (a fixed notice when that text is
  empty).  A run whose earlier chunks were extracted without exception ends with this error
  whatever chunks remain, and \<open>parse_key_value_pairs\<close> returns it.
\<close>

theorem decode_failure_aborts:
  assumes "extract_loop loads llm ks (Some api_key) [] [] pre = (Inr acc, logged)"
    and "llm (chunk_request c ks (Some api_key)) = Inr resp"
    and "loads (clean_response resp) = Inl e"
    and "api_key \<noteq> []"
    and "preprocess_and_chunk input_text doc 2000 200 = pre @ c # rest"
    and "shown = (if clean_response resp \<noteq> [] then take 500 (clean_response resp)
                  else of_ascii ''No response received'')"
    and "err = ValueError (of_ascii ''Failed to parse JSON response from Gemini API. Response: ''
                 @ shown @ [10] @ of_ascii ''Error: '' @ e)"
  shows "extract_with_gemini loads llm (chunk_text c) (doc_id c) (paragraph_index c) (offset c)
           ks (Some api_key) = (Inl err, []) \<and>
    length shown \<le> 500 \<and>
    extract_loop loads llm ks (Some api_key) [] [] (pre @ c # others) = (Inl err, logged) \<and>
    parse_key_value_pairs loads llm input_text api_key ks extraction_method doc = (Inl err, logged)"
proof -
  have e1: "extract_with_gemini loads llm (chunk_text c) (doc_id c) (paragraph_index c) (offset c)
           ks (Some api_key) = (Inl err, [])"
    using assms(2) assms(3)
    by (simp add: extract_with_gemini_def chunk_request_def decode_error_def assms(6) assms(7))
  have l: "length shown \<le> 500" by (simp add: assms(6) of_ascii_def)
  have lp: "extract_loop loads llm ks (Some api_key) [] [] (pre @ c # r) = (Inl err, logged)" for r
    by (simp add: extract_loop_append assms(1) e1)
  have "parse_key_value_pairs loads llm input_text api_key ks extraction_method doc = (Inl err, logged)"
    using assms(4) by (simp add: parse_key_value_pairs_def assms(5) lp)
  with e1 l lp show ?thesis by simp
qed

theorem decode_failure_aborts_witness:
  "extract_loop (\<lambda>s. Inl (of_ascii ''Expecting value'')) (\<lambda>r. Inr (Some (of_ascii ''oops'')))
     None (Some (of_ascii ''k'')) [] []
     ([] @ \<lparr>chunk_text = of_ascii ''Age: 30'', doc_id = of_ascii ''D1'', paragraph_index = 0, offset = 9\<rparr>
       # [\<lparr>chunk_text = of_ascii ''more'', doc_id = of_ascii ''D1'', paragraph_index = 1, offset = 15\<rparr>])
   = (Inl (ValueError (of_ascii ''Failed to parse JSON response from Gemini API. Response: ''
            @ of_ascii ''oops'' @ [10] @ of_ascii ''Error: '' @ of_ascii ''Expecting value'')), []) \<and>
   parse_key_value_pairs (\<lambda>s. Inl (of_ascii ''Expecting value'')) (\<lambda>r. Inr (Some (of_ascii ''oops'')))
     (of_ascii ''Age: 30'') (of_ascii ''k'') None (of_ascii ''Gemini LLM'') (of_ascii ''D1'')
   = (Inl (ValueError (of_ascii ''Failed to parse JSON response from Gemini API. Response: ''
            @ of_ascii ''oops'' @ [10] @ of_ascii ''Error: '' @ of_ascii ''Expecting value'')), [])"
proof -
  let ?loads = "\<lambda>s::str. (Inl (of_ascii ''Expecting value'') :: str + json)"
  let ?llm = "\<lambda>r::request. (Inr (Some (of_ascii ''oops'')) :: str + str option)"
  let ?c = "\<lparr>chunk_text = of_ascii ''Age: 30'', doc_id = of_ascii ''D1'', paragraph_index = 0, offset = 9\<rparr>"
  have cl: "clean_response (Some (of_ascii ''oops'')) = of_ascii ''oops''"
    by (simp add: clean_response_def fence_def of_ascii_def strip_def isspace_def)
  have ne: "of_ascii ''oops'' \<noteq> []" and tk: "take 500 (of_ascii ''oops'') = of_ascii ''oops''"
    by (simp_all add: of_ascii_def)
  have h1: "extract_loop ?loads ?llm None (Some (of_ascii ''k'')) [] [] [] = (Inr [], [])" by simp
  have h2: "?llm (chunk_request ?c None (Some (of_ascii ''k''))) = Inr (Some (of_ascii ''oops''))" by simp
  have h3: "?loads (clean_response (Some (of_ascii ''oops''))) = Inl (of_ascii ''Expecting value'')" by simp
  have h4: "of_ascii ''k'' \<noteq> []" by (simp add: of_ascii_def)
  have h5: "preprocess_and_chunk (of_ascii ''Age: 30'') (of_ascii ''D1'') 2000 200 = [] @ ?c # []"
    by (simp add: chunk_eval)
  from decode_failure_aborts [where llm = "?llm" and loads = "?loads" and c = "?c" and ks = None
      and api_key = "of_ascii ''k''" and resp = "Some (of_ascii ''oops'')"
      and e = "of_ascii ''Expecting value''" and pre = "[]" and rest = "[]" and acc = "[]"
      and logged = "[]" and input_text = "of_ascii ''Age: 30''" and doc = "of_ascii ''D1''"
      and extraction_method = "of_ascii ''Gemini LLM''"
      and others = "[\<lparr>chunk_text = of_ascii ''more'', doc_id = of_ascii ''D1'', paragraph_index = 1, offset = 15\<rparr>]",
      OF h1 h2 h3 h4 h5 refl refl]
  show ?thesis by (simp add: cl ne tk)
qed

text \<open>
  Claim C7 (empty or invalid extraction), as the code has it.  When the response for a chunk
  decodes to a value that is falsy (\<open>null\<close>, \<open>false\<close>, zero, an empty string, list or object)
  or is not a list, the call does not raise: it logs the warning of line 216 and returns no
  record, and the loop goes on to the remaining chunks with the records collected so far
  unchanged.
\<close>

theorem empty_extraction_tolerated:
  assumes "llm (chunk_request c ks api) = Inr resp"
    and "loads (clean_response resp) = Inr v"
    and "\<not> truthy v \<or> \<not> is_list v"
  shows "extract_with_gemini loads llm (chunk_text c) (doc_id c) (paragraph_index c) (offset c) ks api
      = (Inr [], [empty_warning (doc_id c) (paragraph_index c) (chunk_text c)]) \<and>
    extract_loop loads llm ks api acc logged (c # rest)
      = extract_loop loads llm ks api acc
          (logged @ [empty_warning (doc_id c) (paragraph_index c) (chunk_text c)]) rest"
  using assms by (auto simp: extract_with_gemini_def validate_extractions_def chunk_request_def)

theorem empty_extraction_tolerated_witness:
  "extract_with_gemini (\<lambda>s. Inr (JObj [])) (\<lambda>r. Inr (Some (of_ascii ''{}'')))
     (of_ascii ''Age: 30'') (of_ascii ''D1'') 0 9 None (Some (of_ascii ''k''))
   = (Inr [], [of_ascii ''Gemini returned empty/invalid extraction for D1:para_0. Text preview: Age: 30...'']) \<and>
   extract_loop (\<lambda>s. Inr (JObj [])) (\<lambda>r. Inr (Some (of_ascii ''{}''))) None (Some (of_ascii ''k''))
     [[(of_ascii ''key'', JStr (of_ascii ''name''))]] []
     [\<lparr>chunk_text = of_ascii ''Age: 30'', doc_id = of_ascii ''D1'', paragraph_index = 0, offset = 9\<rparr>]
   = (Inr [[(of_ascii ''key'', JStr (of_ascii ''name''))]],
      [of_ascii ''Gemini returned empty/invalid extraction for D1:para_0. Text preview: Age: 30...''])"
proof -
  let ?loads = "\<lambda>s::str. (Inr (JObj []) :: str + json)"
  let ?llm = "\<lambda>r::request. (Inr (Some (of_ascii ''{}'')) :: str + str option)"
  let ?c = "\<lparr>chunk_text = of_ascii ''Age: 30'', doc_id = of_ascii ''D1'', paragraph_index = 0, offset = 9\<rparr>"
  have h1: "?llm (chunk_request ?c None (Some (of_ascii ''k''))) = Inr (Some (of_ascii ''{}''))" by simp
  have h2: "?loads (clean_response (Some (of_ascii ''{}''))) = Inr (JObj [])" by simp
  have h3: "\<not> truthy (JObj []) \<or> \<not> is_list (JObj [])" by simp
  have w: "empty_warning (of_ascii ''D1'') 0 (of_ascii ''Age: 30'')
    = of_ascii ''Gemini returned empty/invalid extraction for D1:para_0. Text preview: Age: 30...''"
    by (simp add: empty_warning_def show_int_def show_nat.simps of_ascii_def)
  from empty_extraction_tolerated [where llm = "?llm" and loads = "?loads" and c = "?c" and ks = None
      and api = "Some (of_ascii ''k'')" and resp = "Some (of_ascii ''{}'')" and v = "JObj []"
      and acc = "[[(of_ascii ''key'', JStr (of_ascii ''name''))]]" and logged = "[]" and rest = "[]",
      OF h1 h2 h3]
  show ?thesis by (simp add: w)
qed

theorem empty_extraction_tolerated_counterexample:
  "extract_with_gemini (\<lambda>s. Inr (JArr [JInt 1])) (\<lambda>r. Inr (Some (of_ascii ''[1]'')))
     (of_ascii ''Age: 30'') (of_ascii ''D1'') 0 9 None (Some (of_ascii ''k''))
   = (Inl (Exception (of_ascii ''Gemini API call failed: '' @ [39] @ of_ascii ''int'' @ [39]
        @ of_ascii '' object has no attribute '' @ [39] @ of_ascii ''get'' @ [39])), [])"
  by (simp add: extract_eval)

section \<open>Properties of the normalizer\<close>

lemma adj_append:
  "adj R (x @ y) \<longleftrightarrow> adj R x \<or> adj R y \<or> (x \<noteq> [] \<and> y \<noteq> [] \<and> R (last x) (hd y))"
proof (induction x)
  case Nil
  then show ?case by simp
next
  case (Cons a x)
  show ?case
  proof (cases x)
    case Nil
    then show ?thesis by (cases y) auto
  next
    case (Cons b x')
    with Cons.IH show ?thesis by auto
  qed
qed

lemma adj_sublist: "sublist x y \<Longrightarrow> adj R x \<Longrightarrow> adj R y"
  by (auto simp: sublist_def adj_append)

lemma adj_strip: "adj R (strip s) \<Longrightarrow> adj R s"
proof -
  obtain a b where "s = a @ strip s @ b" using strip_decomp by blast
  then have "sublist (strip s) s" unfolding sublist_def by blast
  then show "adj R (strip s) \<Longrightarrow> adj R s" by (rule adj_sublist)
qed

lemma set_strip: "set (strip s) \<subseteq> set s"
proof -
  obtain a b where "s = a @ strip s @ b" using strip_decomp by blast
  then have "set s = set a \<union> set (strip s) \<union> set b" by (metis set_append Un_assoc)
  then show ?thesis by blast
qed

lemma set_collapse_newlines: "set (collapse_newlines s) \<subseteq> set s"
  by (induction s rule: collapse_newlines.induct) auto

lemma set_collapse_blanks: "set (collapse_blanks s) \<subseteq> (set s - {9}) \<union> {32}"
  by (induction s rule: collapse_blanks.induct) (auto simp: blank_def)

lemma hd_collapse_newlines: "hd (collapse_newlines s) = hd s"
  by (induction s rule: collapse_newlines.induct) auto

lemma collapse_newlines_Nil_iff [simp]: "collapse_newlines s = [] \<longleftrightarrow> s = []"
  by (induction s rule: collapse_newlines.induct) auto

lemma take2_collapse_newlines: "take 2 (collapse_newlines s) = take 2 s"
proof (induction s rule: collapse_newlines.induct)
  case (1 a b c s)
  have "collapse_newlines (b # c # s) \<noteq> []" by simp
  then obtain h r where hr: "collapse_newlines (b # c # s) = h # r"
    by (cases "collapse_newlines (b # c # s)") auto
  have "h = b" using hd_collapse_newlines [of "b # c # s"] hr by simp
  with 1 hr show ?case by (auto simp: numeral_2_eq_2)
qed simp_all

lemma adj_collapse_newlines: "adj R (collapse_newlines s) \<Longrightarrow> adj R s"
proof (induction s rule: collapse_newlines.induct)
  case (1 a b c s)
  show ?case
  proof (cases "a = 10 \<and> b = 10 \<and> c = 10")
    case True
    with 1 show ?thesis by simp
  next
    case False
    have "collapse_newlines (b # c # s) \<noteq> []" by simp
    then obtain h r where hr: "collapse_newlines (b # c # s) = h # r"
      by (cases "collapse_newlines (b # c # s)") auto
    have h: "h = b" using hd_collapse_newlines [of "b # c # s"] hr by simp
    have e: "collapse_newlines (a # b # c # s) = a # collapse_newlines (b # c # s)"
      using False by auto
    from 1(3) have "R a b \<or> adj R (collapse_newlines (b # c # s))"
      unfolding e by (simp add: hr h)
    with 1(2) False show ?thesis by auto
  qed
qed simp_all

lemma triple_prefix_iff: "prefix [10, 10, 10] (a # b # c # s) \<longleftrightarrow> a = 10 \<and> b = 10 \<and> c = (10::nat)"
  by simp

lemma triple_prefix_take2:
  "prefix [10, 10, 10] (a # y) \<Longrightarrow> a = (10::nat) \<and> take 2 y = [10, 10]"
  by (cases y; cases "tl y") (auto simp: numeral_2_eq_2)

lemma no_triple_collapse: "\<not> sublist [10, 10, 10] (collapse_newlines s)"
proof (induction s rule: collapse_newlines.induct)
  case (1 a b c s)
  show ?case
  proof (cases "a = 10 \<and> b = 10 \<and> c = 10")
    case True
    with 1 show ?thesis by simp
  next
    case False
    have e: "collapse_newlines (a # b # c # s) = a # collapse_newlines (b # c # s)"
      using False by auto
    have "\<not> prefix [10, 10, 10] (a # collapse_newlines (b # c # s))"
    proof
      assume "prefix [10, 10, 10] (a # collapse_newlines (b # c # s))"
      then have "a = 10 \<and> take 2 (collapse_newlines (b # c # s)) = [10, 10]"
        by (rule triple_prefix_take2)
      then have "a = 10 \<and> take 2 (b # c # s) = [10, 10]"
        by (simp only: take2_collapse_newlines)
      with False show False by (simp add: numeral_2_eq_2)
    qed
    with 1(2) False show ?thesis unfolding e by (simp add: sublist_Cons_right)
  qed
qed (simp_all add: sublist_Cons_right)

lemma collapse_newlines_id: "\<not> sublist [10, 10, 10] s \<Longrightarrow> collapse_newlines s = s"
proof (induction s rule: collapse_newlines.induct)
  case (1 a b c s)
  from 1(3) have np: "\<not> prefix [10, 10, 10] (a # b # c # s)" and ns: "\<not> sublist [10, 10, 10] (b # c # s)"
    by (simp_all add: sublist_Cons_right)
  from np have f: "\<not> (a = 10 \<and> b = 10 \<and> c = 10)" by simp
  with 1(2) ns show ?case by auto
qed simp_all

lemma hd_collapse_blanks:
  "collapse_blanks (b # s) \<noteq> [] \<and> hd (collapse_blanks (b # s)) = (if blank b then 32 else b)"
  by (induction "b # s" arbitrary: b s rule: collapse_blanks.induct) (auto simp: blank_def)

lemma last_collapse_blanks:
  "s \<noteq> [] \<Longrightarrow> collapse_blanks s \<noteq> [] \<and> last (collapse_blanks s) = (if blank (last s) then 32 else last s)"
  by (induction s rule: collapse_blanks.induct) (auto simp: blank_def)

lemma no_two_spaces_collapse: "\<not> adj two_spaces (collapse_blanks s)"
proof (induction s rule: collapse_blanks.induct)
  case (1 a b s)
  show ?case
  proof (cases "blank a \<and> blank b")
    case True
    with 1 show ?thesis by simp
  next
    case False
    obtain h r where hr: "collapse_blanks (b # s) = h # r"
      using hd_collapse_blanks [of b s] by (cases "collapse_blanks (b # s)") auto
    have h: "h = (if blank b then 32 else b)" using hd_collapse_blanks [of b s] hr by simp
    have "\<not> two_spaces (if blank a then 32 else a) h"
      using False unfolding h by (auto simp: two_spaces_def blank_def)
    with 1(2) False hr show ?thesis by auto
  qed
qed simp_all

lemma collapse_blanks_id: "9 \<notin> set s \<Longrightarrow> \<not> adj two_spaces s \<Longrightarrow> collapse_blanks s = s"
  by (induction s rule: collapse_blanks.induct) (auto simp: blank_def two_spaces_def)

lemma blank_isspace: "blank c \<Longrightarrow> isspace c"
  by (auto simp: blank_def isspace_def)

lemma isspace_32 [simp]: "isspace 32"
  by (simp add: isspace_def)

lemma stripped_iff: "strip s = s \<longleftrightarrow> s = [] \<or> (\<not> isspace (hd s) \<and> \<not> isspace (last s))"
  using strip_fixed [of s] hd_strip [of s] last_strip [of s] by auto

lemma strip_collapse_blanks:
  assumes "strip y = y"
  shows "strip (collapse_blanks y) = collapse_blanks y"
proof (cases y)
  case Nil
  then show ?thesis by simp
next
  case (Cons b s)
  with assms have ns: "\<not> isspace b" "\<not> isspace (last y)" by (auto simp: stripped_iff)
  then have nb: "\<not> blank b" "\<not> blank (last y)" using blank_isspace by blast+
  have "hd (collapse_blanks y) = b" using hd_collapse_blanks [of b s] nb(1) by (simp add: Cons)
  moreover have "last (collapse_blanks y) = last y" "collapse_blanks y \<noteq> []"
    using last_collapse_blanks [of y] nb(2) by (simp_all add: Cons)
  ultimately show ?thesis using ns by (intro strip_fixed) (simp add: Cons)
qed

lemma lines_nl: "py_split [10] (10 # s) = [] # py_split [10] s"
  by (subst py_split.simps) simp

lemma lines_other: "c \<noteq> 10 \<Longrightarrow> py_split [10] (c # s) = cons_hd c (py_split [10] s)"
  by (subst py_split.simps) simp

lemma lines_cases:
  obtains l0 ls where "py_split [10] s = l0 # ls"
  by (cases "py_split [10] s") simp_all

lemma lines_members: "l \<in> set (py_split [10] s) \<Longrightarrow> 10 \<notin> set l \<and> set l \<subseteq> set s"
proof (induction s arbitrary: l)
  case Nil
  then show ?case by simp
next
  case (Cons c s)
  obtain l0 ls where ls: "py_split [10] s = l0 # ls" by (rule lines_cases)
  show ?case
  proof (cases "c = 10")
    case True
    with Cons.prems have "l = [] \<or> l \<in> set (py_split [10] s)" by (simp add: lines_nl)
    with Cons.IH show ?thesis by auto
  next
    case False
    with Cons.prems have "l = c # l0 \<or> l \<in> set ls" by (simp add: lines_other ls)
    moreover have "10 \<notin> set l0 \<and> set l0 \<subseteq> set s" using Cons.IH [of l0] by (simp add: ls)
    moreover have "10 \<notin> set l' \<and> set l' \<subseteq> set s" if "l' \<in> set ls" for l'
      using Cons.IH [of l'] that by (simp add: ls)
    ultimately show ?thesis using False by auto
  qed
qed

lemma first_line_newline:
  "tl (py_split [10] u) \<noteq> [] \<Longrightarrow> prefix (hd (py_split [10] u) @ [10]) u"
proof (induction u)
  case Nil
  then show ?case by simp
next
  case (Cons c s)
  obtain l0 ls where ls: "py_split [10] s = l0 # ls" by (rule lines_cases)
  show ?case
  proof (cases "c = 10")
    case True
    then show ?thesis by (simp add: lines_nl)
  next
    case False
    with Cons.prems have "ls \<noteq> []" by (simp add: lines_other ls)
    with Cons.IH have "prefix (l0 @ [10]) s" by (simp add: ls)
    with False show ?thesis by (simp add: lines_other ls)
  qed
qed

lemma adj_Cons: "adj R (a # s) \<longleftrightarrow> (s \<noteq> [] \<and> R a (hd s)) \<or> adj R s"
  by (cases s) auto

lemma later_line_after_newline:
  "l \<in> set (tl (py_split [10] u)) \<Longrightarrow> l \<noteq> [] \<Longrightarrow> adj (\<lambda>a b. a = 10 \<and> b = hd l) u"
proof (induction u)
  case Nil
  then show ?case by simp
next
  case (Cons c s)
  obtain l0 ls where ls: "py_split [10] s = l0 # ls" by (rule lines_cases)
  show ?case
  proof (cases "c = 10")
    case True
    with Cons.prems(1) have "l = l0 \<or> l \<in> set ls" by (simp add: lines_nl ls)
    then show ?thesis
    proof
      assume l: "l = l0"
      have "prefix l0 s" using hd_split_prefix [of "[10]" s] by (simp add: ls)
      with Cons.prems(2) l have "s \<noteq> [] \<and> hd s = hd l" by (cases l0; cases s) auto
      with True show ?thesis by (simp add: adj_Cons)
    next
      assume "l \<in> set ls"
      with Cons.IH Cons.prems(2) show ?thesis by (simp add: ls adj_Cons)
    qed
  next
    case False
    with Cons.prems(1) have "l \<in> set ls" by (simp add: lines_other ls)
    with Cons.IH Cons.prems(2) show ?thesis by (simp add: ls adj_Cons)
  qed
qed

lemma earlier_line_before_newline:
  "l \<in> set (butlast (py_split [10] u)) \<Longrightarrow> l \<noteq> [] \<Longrightarrow> adj (\<lambda>a b. a = last l \<and> b = 10) u"
proof (induction u arbitrary: l)
  case Nil
  then show ?case by simp
next
  case (Cons c s)
  obtain l0 ls where ls: "py_split [10] s = l0 # ls" by (rule lines_cases)
  show ?case
  proof (cases "c = 10")
    case True
    with Cons.prems have "l \<in> set (butlast (py_split [10] s))" by (simp add: lines_nl ls)
    with Cons.IH Cons.prems(2) show ?thesis by (simp add: adj_Cons)
  next
    case False
    show ?thesis
    proof (cases "ls = []")
      case True
      with Cons.prems(1) False show ?thesis by (simp add: lines_other ls)
    next
      case ne: False
      with Cons.prems(1) False have "l = c # l0 \<or> l \<in> set (butlast ls)" by (simp add: lines_other ls)
      then show ?thesis
      proof
        assume l: "l = c # l0"
        have "prefix (l0 @ [10]) s" using first_line_newline [of s] ne by (simp add: ls)
        then obtain r where "s = l0 @ 10 # r" by (auto simp: prefix_def)
        then have "c # s = (c # l0) @ (10 # r)" by simp
        then show ?thesis unfolding l by (simp only: adj_append) simp
      next
        assume "l \<in> set (butlast ls)"
        then have "l \<in> set (butlast (py_split [10] s))" using ne by (simp add: ls)
        with Cons.IH Cons.prems(2) show ?thesis by (simp add: adj_Cons)
      qed
    qed
  qed
qed

lemma last_line_suffix: "suffix (last (py_split [10] u)) u"
proof (induction u)
  case Nil
  then show ?case by simp
next
  case (Cons c s)
  obtain l0 ls where ls: "py_split [10] s = l0 # ls" by (rule lines_cases)
  show ?case
  proof (cases "c = 10")
    case True
    with Cons.IH show ?thesis by (simp add: lines_nl ls suffix_ConsI)
  next
    case False
    show ?thesis
    proof (cases "ls = []")
      case True
      have "py_join [10] (py_split [10] s) = s" by (rule join_split) simp
      with True have "l0 = s" by (simp add: ls)
      with True False show ?thesis by (simp add: lines_other ls)
    next
      case ne: False
      with Cons.IH have "suffix (last ls) s" by (simp add: ls)
      with ne False show ?thesis by (simp add: lines_other ls suffix_ConsI)
    qed
  qed
qed

lemma adj_mono: "adj R u \<Longrightarrow> (\<And>a b. R a b \<Longrightarrow> R' a b) \<Longrightarrow> adj R' u"
  by (induction R u rule: adj.induct) auto

lemma adj_needs_member: "adj R u \<Longrightarrow> \<exists>a\<in>set u. \<exists>b\<in>set u. R a b"
  by (induction R u rule: adj.induct) auto

lemma hd_join:
  "py_join [c] (y # ys) \<noteq> [] \<Longrightarrow> hd (py_join [c] (y # ys)) = (if y \<noteq> [] then hd y else c)"
  by (cases ys) auto

lemma adj_join:
  "adj R (py_join [c] L) \<Longrightarrow>
   (\<exists>l\<in>set L. adj R l) \<or> (\<exists>l\<in>set L. l \<noteq> [] \<and> (R (last l) c \<or> R c (hd l))) \<or> R c c"
proof (induction "[c]" L rule: py_join.induct)
  case 1
  then show ?case by simp
next
  case (2 x)
  then show ?case by simp
next
  case (3 x y ys)
  let ?J = "py_join [c] (y # ys)"
  from 3(2) have "adj R (x @ (c # ?J))" by simp
  then consider "adj R x" | "adj R (c # ?J)" | "x \<noteq> [] \<and> R (last x) c"
    by (auto simp: adj_append)
  then show ?case
  proof cases
    case 1
    then show ?thesis by auto
  next
    case 2
    then have "(?J \<noteq> [] \<and> R c (hd ?J)) \<or> adj R ?J" by (simp add: adj_Cons)
    then show ?thesis
    proof
      assume a: "?J \<noteq> [] \<and> R c (hd ?J)"
      then have "hd ?J = (if y \<noteq> [] then hd y else c)" by (intro hd_join) simp
      with a show ?thesis by (cases "y = []") auto
    next
      assume "adj R ?J"
      with 3(1) show ?thesis by auto
    qed
  next
    case 3
    then show ?thesis by auto
  qed
qed

lemma line_adj: "l \<in> set (py_split [10] u) \<Longrightarrow> adj R l \<Longrightarrow> adj R u"
proof (induction u arbitrary: l)
  case Nil
  then show ?case by simp
next
  case (Cons c s)
  obtain l0 ls where ls: "py_split [10] s = l0 # ls" by (rule lines_cases)
  show ?case
  proof (cases "c = 10")
    case True
    with Cons.prems have "l \<in> set (py_split [10] s)" by (auto simp: lines_nl)
    with Cons.IH Cons.prems(2) show ?thesis by (simp add: adj_Cons)
  next
    case False
    with Cons.prems(1) have "l = c # l0 \<or> l \<in> set ls" by (simp add: lines_other ls)
    then show ?thesis
    proof
      assume l: "l = c # l0"
      with Cons.prems(2) have "(l0 \<noteq> [] \<and> R c (hd l0)) \<or> adj R l0" by (simp add: adj_Cons)
      then show ?thesis
      proof
        assume a: "l0 \<noteq> [] \<and> R c (hd l0)"
        have "prefix l0 s" using hd_split_prefix [of "[10]" s] by (simp add: ls)
        with a have "s \<noteq> [] \<and> hd s = hd l0" by (cases l0; cases s) auto
        with a show ?thesis by (simp add: adj_Cons)
      next
        assume "adj R l0"
        with Cons.IH [of l0] show ?thesis by (simp add: ls adj_Cons)
      qed
    next
      assume "l \<in> set ls"
      with Cons.IH [of l] Cons.prems(2) show ?thesis by (simp add: ls adj_Cons)
    qed
  qed
qed

lemma set_py_replace: "set (py_replace old new s) \<subseteq> set s \<union> set new"
proof (induction old new s rule: py_replace.induct)
  case (1 old new s)
  show ?case
  proof (cases "s = []")
    case True
    then show ?thesis by (simp add: py_replace.simps)
  next
    case ne: False
    show ?thesis
    proof (cases "old \<noteq> [] \<and> prefix old s")
      case True
      have "set (drop (length old) s) \<subseteq> set s" by (rule set_drop_subset)
      with 1(1) [OF ne True] ne True show ?thesis
        by (subst py_replace.simps) auto
    next
      case False
      have "set (tl s) \<subseteq> set s" using ne by (cases s) auto
      moreover have "hd s \<in> set s" using ne by simp
      ultimately show ?thesis using 1(2) [OF ne False] ne False
        by (subst py_replace.simps) auto
    qed
  qed
qed

lemma py_replace_absent: "old \<noteq> [] \<Longrightarrow> hd old \<notin> set s \<Longrightarrow> py_replace old new s = s"
proof (induction s)
  case Nil
  then show ?case by (simp add: py_replace.simps)
next
  case (Cons a s)
  then have "\<not> prefix old (a # s)" by (cases old) auto
  with Cons show ?case by (subst py_replace.simps) simp
qed

lemma py_replace_removes: "c \<notin> set new \<Longrightarrow> c \<notin> set (py_replace [c] new s)"
proof (induction s)
  case Nil
  then show ?case by (simp add: py_replace.simps)
next
  case (Cons a s)
  then show ?case by (subst py_replace.simps) auto
qed

lemma clean_line:
  assumes "10 \<notin> set q"
  defines "l \<equiv> collapse_blanks (strip q)"
  shows "strip l = l" and "10 \<notin> set l" and "9 \<notin> set l" and "\<not> adj two_spaces l"
    and "set l \<subseteq> (set q - {9}) \<union> {32}"
proof -
  show "strip l = l" unfolding l_def by (rule strip_collapse_blanks) simp
  show s: "set l \<subseteq> (set q - {9}) \<union> {32}"
    unfolding l_def using set_collapse_blanks [of "strip q"] set_strip [of q] by blast
  from s assms(1) show "10 \<notin> set l" by auto
  from s show "9 \<notin> set l" by auto
  show "\<not> adj two_spaces l" unfolding l_def by (rule no_two_spaces_collapse)
qed

lemma stripped_ends: "strip l = l \<Longrightarrow> l \<noteq> [] \<Longrightarrow> \<not> isspace (hd l) \<and> \<not> isspace (last l)"
  by (simp add: stripped_iff)

lemma no_bad_pair_join:
  assumes "\<forall>l\<in>set L. strip l = l \<and> 10 \<notin> set l"
  shows "\<not> adj bad_pair (py_join [10] L)"
proof
  assume "adj bad_pair (py_join [10] L)"
  then consider l where "l \<in> set L" "adj bad_pair l"
    | l where "l \<in> set L" "l \<noteq> []" "bad_pair (last l) 10 \<or> bad_pair 10 (hd l)"
    | "bad_pair 10 10"
    using adj_join [of bad_pair 10 L] by blast
  then show False
  proof cases
    case 1
    from 1(2) obtain a b where "a \<in> set l" "b \<in> set l" "bad_pair a b"
      using adj_needs_member by blast
    with assms 1(1) show False by (auto simp: bad_pair_def)
  next
    case 2
    with assms have "\<not> isspace (hd l) \<and> \<not> isspace (last l)" by (intro stripped_ends) auto
    with 2(3) show False by (auto simp: bad_pair_def)
  next
    case 3
    then show False by (simp add: bad_pair_def)
  qed
qed

lemma no_two_spaces_join:
  assumes "\<forall>l\<in>set L. \<not> adj two_spaces l"
  shows "\<not> adj two_spaces (py_join [10] L)"
  using adj_join [of two_spaces 10 L] assms by (auto simp: two_spaces_def)

lemma normalize_core_normal_form:
  assumes pr: "isprintable 32"
  shows "\<forall>c\<in>set (normalize_core isprintable t). (isprintable c \<or> c = 10) \<and> c \<noteq> 13 \<and> c \<noteq> 9"
    and "\<not> adj two_spaces (normalize_core isprintable t)"
    and "\<not> adj bad_pair (normalize_core isprintable t)"
    and "\<not> sublist [10, 10, 10] (normalize_core isprintable t)"
    and "strip (normalize_core isprintable t) = normalize_core isprintable t"
proof -
  define t2 where "t2 = filter (\<lambda>char. isprintable char \<or> char \<in> set [10, 9, 13]) t"
  define t3 where "t3 = py_replace [13] [10] (py_replace [13, 10] [10] t2)"
  define L where "L = map (\<lambda>line. collapse_blanks (strip line)) (py_split [10] t3)"
  define J where "J = py_join [10] L"
  define u where "u = collapse_newlines J"
  have out: "normalize_core isprintable t = strip u"
    by (simp add: normalize_core_def Let_def t2_def t3_def L_def J_def u_def)
  have t3_no_cr: "13 \<notin> set t3" unfolding t3_def by (rule py_replace_removes) simp
  have t3_set: "set t3 \<subseteq> set t2 \<union> {10}"
    unfolding t3_def
    using set_py_replace [of "[13]" "[10]" "py_replace [13, 10] [10] t2"]
      set_py_replace [of "[13, 10]" "[10]" t2] by auto
  have t2_set: "\<forall>x\<in>set t2. isprintable x \<or> x = 10 \<or> x = 9 \<or> x = 13"
    by (auto simp: t2_def)
  have Lq: "\<exists>q\<in>set (py_split [10] t3). l = collapse_blanks (strip q)" if "l \<in> set L" for l
    using that by (auto simp: L_def)
  have clean: "strip l = l \<and> 10 \<notin> set l \<and> 9 \<notin> set l \<and> \<not> adj two_spaces l \<and>
      set l \<subseteq> (set t3 - {9}) \<union> {32}" if "l \<in> set L" for l
  proof -
    from Lq [OF that] obtain q where q: "q \<in> set (py_split [10] t3)" "l = collapse_blanks (strip q)"
      by blast
    from lines_members [OF q(1)] have q10: "10 \<notin> set q" and qs: "set q \<subseteq> set t3" by simp_all
    from clean_line [OF q10] qs show ?thesis unfolding q(2) by blast
  qed
  have Jset: "set J \<subseteq> {10} \<union> \<Union> (set ` set L)"
    unfolding J_def using set_py_join [of "[10]" L] by simp
  have uset: "set u \<subseteq> set J" unfolding u_def by (rule set_collapse_newlines)
  have oset: "set (strip u) \<subseteq> set u" by (rule set_strip)
  show "\<forall>c\<in>set (normalize_core isprintable t). (isprintable c \<or> c = 10) \<and> c \<noteq> 13 \<and> c \<noteq> 9"
  proof
    fix c assume "c \<in> set (normalize_core isprintable t)"
    with out oset uset Jset have "c = 10 \<or> (\<exists>l\<in>set L. c \<in> set l)" by auto
    then show "(isprintable c \<or> c = 10) \<and> c \<noteq> 13 \<and> c \<noteq> 9"
    proof
      assume "c = 10"
      then show ?thesis by simp
    next
      assume "\<exists>l\<in>set L. c \<in> set l"
      then obtain l where l: "l \<in> set L" "c \<in> set l" by blast
      from clean [OF l(1)] l(2) have "c = 32 \<or> (c \<in> set t3 \<and> c \<noteq> 9)" by auto
      then show ?thesis
      proof
        assume "c = 32"
        with pr show ?thesis by simp
      next
        assume c: "c \<in> set t3 \<and> c \<noteq> 9"
        with t3_no_cr have c13: "c \<noteq> 13" by auto
        from c t3_set have "c = 10 \<or> c \<in> set t2" by auto
        with t2_set c c13 show ?thesis by auto
      qed
    qed
  qed
  have "\<not> adj two_spaces J" unfolding J_def by (rule no_two_spaces_join) (use clean in blast)
  then have "\<not> adj two_spaces u" unfolding u_def using adj_collapse_newlines by blast
  then show "\<not> adj two_spaces (normalize_core isprintable t)" unfolding out using adj_strip by blast
  have "\<not> adj bad_pair J" unfolding J_def by (rule no_bad_pair_join) (use clean in blast)
  then have "\<not> adj bad_pair u" unfolding u_def using adj_collapse_newlines by blast
  then show "\<not> adj bad_pair (normalize_core isprintable t)" unfolding out using adj_strip by blast
  have "\<not> sublist [10, 10, 10] u" unfolding u_def by (rule no_triple_collapse)
  then show "\<not> sublist [10, 10, 10] (normalize_core isprintable t)"
    unfolding out using sublist_strip by blast
  show "strip (normalize_core isprintable t) = normalize_core isprintable t"
    unfolding out by simp
qed

lemma in_butlast: "x \<in> set xs \<Longrightarrow> x \<noteq> last xs \<Longrightarrow> x \<in> set (butlast xs)"
  by (induction xs) (auto split: if_splits)

lemma line_stripped:
  assumes l: "l \<in> set (py_split [10] out)"
    and nb: "\<not> adj bad_pair out" and st: "strip out = out"
  shows "strip l = l"
proof (cases "l = []")
  case True
  then show ?thesis by simp
next
  case ne: False
  obtain l0 ls where ls: "py_split [10] out = l0 # ls" by (rule lines_cases)
  from lines_members [OF l] have l10: "10 \<notin> set l" by simp
  have h: "\<not> isspace (hd l)"
  proof (cases "l = l0")
    case True
    have "prefix l0 out" using hd_split_prefix [of "[10]" out] by (simp add: ls)
    with True ne have "out \<noteq> [] \<and> hd l = hd out" by (cases l0; cases out) auto
    with st show ?thesis using stripped_ends [of out] by simp
  next
    case False
    with l have "l \<in> set (tl (py_split [10] out))" by (simp add: ls)
    from later_line_after_newline [OF this ne] have a: "adj (\<lambda>a b. a = 10 \<and> b = hd l) out" .
    show ?thesis
    proof
      assume sp: "isspace (hd l)"
      from ne l10 have "hd l \<noteq> 10" by (cases l) auto
      with sp have "bad_pair a b" if "a = 10 \<and> b = hd l" for a b
        using that by (simp add: bad_pair_def)
      with a have "adj bad_pair out" by (rule adj_mono)
      with nb show False by simp
    qed
  qed
  have e: "\<not> isspace (last l)"
  proof (cases "l = last (py_split [10] out)")
    case True
    have "suffix l out" unfolding True by (rule last_line_suffix)
    with ne have "out \<noteq> [] \<and> last l = last out" by (auto simp: suffix_def)
    with st show ?thesis using stripped_ends [of out] by simp
  next
    case False
    from l False have "l \<in> set (butlast (py_split [10] out))" by (rule in_butlast)
    from earlier_line_before_newline [OF this ne] have a: "adj (\<lambda>a b. a = last l \<and> b = 10) out" .
    show ?thesis
    proof
      assume sp: "isspace (last l)"
      from ne l10 have "last l \<noteq> 10" using last_in_set by metis
      with sp have "bad_pair a b" if "a = last l \<and> b = 10" for a b
        using that by (simp add: bad_pair_def)
      with a have "adj bad_pair out" by (rule adj_mono)
      with nb show False by simp
    qed
  qed
  from ne h e show ?thesis by (intro strip_fixed) simp
qed

lemma normalize_core_fixed:
  assumes chars: "\<forall>c\<in>set out. (isprintable c \<or> c = 10) \<and> c \<noteq> 13 \<and> c \<noteq> 9"
    and two: "\<not> adj two_spaces out" and bad: "\<not> adj bad_pair out"
    and tri: "\<not> sublist [10, 10, 10] out" and st: "strip out = out"
  shows "normalize_core isprintable out = out"
proof -
  have f: "filter (\<lambda>char. isprintable char \<or> char \<in> set [10, 9, 13]) out = out"
    using chars by (simp add: filter_id_conv)
  have cr: "13 \<notin> set out" using chars by auto
  have r1: "py_replace [13, 10] [10] out = out" by (rule py_replace_absent) (use cr in simp_all)
  have r2: "py_replace [13] [10] out = out" by (rule py_replace_absent) (use cr in simp_all)
  have m: "map (\<lambda>line. collapse_blanks (strip line)) (py_split [10] out) = py_split [10] out"
  proof (rule map_idI)
    fix l assume l: "l \<in> set (py_split [10] out)"
    have s: "strip l = l" using l bad st by (rule line_stripped)
    from lines_members [OF l] chars have "9 \<notin> set l" by auto
    moreover have "\<not> adj two_spaces l" using line_adj [OF l] two by blast
    ultimately have "collapse_blanks l = l" by (rule collapse_blanks_id)
    with s show "collapse_blanks (strip l) = l" by simp
  qed
  have j: "py_join [10] (py_split [10] out) = out" by (rule join_split) simp
  have c: "collapse_newlines out = out" using tri by (rule collapse_newlines_id)
  show ?thesis unfolding normalize_core_def Let_def f r1 r2 m j c st by (rule refl)
qed

lemma normalize_core_idem:
  "isprintable 32 \<Longrightarrow>
   normalize_core isprintable (normalize_core isprintable t) = normalize_core isprintable t"
  by (rule normalize_core_fixed) (rule normalize_core_normal_form; assumption)+

lemmas normalize_eval = normalize_text_def normalize_core_def nfkc_fragment_def fold_width_def
  isprintable_fragment_def py_replace.simps py_split_Cons strip_def isspace_def blank_def Let_def

text \<open>
  Claim C2 (idempotence of the normalizer), as the code has it.  For every string \<open>t\<close> whose
  normalized form is left unchanged by NFKC, \<open>normalize(normalize(t)) = normalize(t)\<close>:
  everything after the NFKC step is idempotent on every input (with full-width characters,
  CRLF line endings and runs of blank lines alike).  The condition is needed: the filter on
  \<open>isprintable\<close> runs after NFKC and can bring a letter and a combining mark together.
\<close>

theorem normalize_idempotent:
  assumes "nfkc (normalize_text nfkc isprintable t) = normalize_text nfkc isprintable t"
    and "isprintable 32"
  shows "normalize_text nfkc isprintable (normalize_text nfkc isprintable t)
    = normalize_text nfkc isprintable t"
proof -
  have "normalize_text nfkc isprintable (normalize_text nfkc isprintable t)
      = normalize_core isprintable (normalize_text nfkc isprintable t)"
    using assms(1) by (simp add: normalize_text_def)
  also have "\<dots> = normalize_text nfkc isprintable t"
    unfolding normalize_text_def using assms(2) by (rule normalize_core_idem)
  finally show ?thesis .
qed

lemma normalize_example:
  "normalize_text nfkc_fragment isprintable_fragment
     ([65297, 65298, 13, 10, 13, 10, 13, 10, 13, 10] @ of_ascii ''b  c '' @ [9])
   = of_ascii ''12'' @ [10, 10] @ of_ascii ''b c''"
  by (simp add: normalize_eval of_ascii_def)

theorem normalize_idempotent_witness:
  "nfkc_fragment (of_ascii ''12'' @ [10, 10] @ of_ascii ''b c'') = of_ascii ''12'' @ [10, 10] @ of_ascii ''b c'' \<and>
   isprintable_fragment 32 \<and>
   normalize_text nfkc_fragment isprintable_fragment (of_ascii ''12'' @ [10, 10] @ of_ascii ''b c'')
   = of_ascii ''12'' @ [10, 10] @ of_ascii ''b c''"
proof -
  have h1: "nfkc_fragment (of_ascii ''12'' @ [10, 10] @ of_ascii ''b c'') = of_ascii ''12'' @ [10, 10] @ of_ascii ''b c''"
    by (simp add: nfkc_fragment_def fold_width_def of_ascii_def)
  have h2: "isprintable_fragment 32" by (simp add: isprintable_fragment_def)
  from normalize_idempotent [of nfkc_fragment isprintable_fragment
      "[65297, 65298, 13, 10, 13, 10, 13, 10, 13, 10] @ of_ascii ''b  c '' @ [9]",
      unfolded normalize_example, OF h1 h2]
  show ?thesis using h1 h2 by simp
qed

theorem normalize_idempotent_counterexample:
  "normalize_text nfkc_fragment isprintable_fragment [97, 8203, 769] = [97, 769] \<and>
   normalize_text nfkc_fragment isprintable_fragment
     (normalize_text nfkc_fragment isprintable_fragment [97, 8203, 769]) = [225]"
  by (simp add: normalize_eval)

lemma normalize_core_whitespace:
  assumes "\<forall>c\<in>set t1. isspace c"
  shows "normalize_core isprintable t1 = []"
proof -
  define t2 where "t2 = filter (\<lambda>char. isprintable char \<or> char \<in> set [10, 9, 13]) t1"
  define t3 where "t3 = py_replace [13] [10] (py_replace [13, 10] [10] t2)"
  define L where "L = map (\<lambda>line. collapse_blanks (strip line)) (py_split [10] t3)"
  define u where "u = collapse_newlines (py_join [10] L)"
  have out: "normalize_core isprintable t1 = strip u"
    by (simp add: normalize_core_def Let_def t2_def t3_def L_def u_def)
  have "set t2 \<subseteq> set t1" by (auto simp: t2_def)
  moreover have "set t3 \<subseteq> set t2 \<union> {10}"
    unfolding t3_def
    using set_py_replace [of "[13]" "[10]" "py_replace [13, 10] [10] t2"]
      set_py_replace [of "[13, 10]" "[10]" t2] by auto
  ultimately have t3: "\<forall>c\<in>set t3. isspace c" using assms isspace_10 by blast
  have allnil: "\<forall>l\<in>set L. l = []"
  proof
    fix l assume "l \<in> set L"
    then obtain q where q: "q \<in> set (py_split [10] t3)" "l = collapse_blanks (strip q)"
      by (auto simp: L_def)
    from lines_members [OF q(1)] t3 have "\<forall>c\<in>set q. isspace c" by blast
    then have "strip q = []" by (simp add: strip_eq_Nil_iff)
    then show "l = []" by (simp add: q(2))
  qed
  have js: "set (py_join [10] L) \<subseteq> set [10] \<union> \<Union> (set ` set L)"
    by (rule set_py_join)
  have "set (py_join [10] L) \<subseteq> {10}"
  proof
    fix x assume "x \<in> set (py_join [10] L)"
    with js have "x \<in> set [10] \<union> \<Union> (set ` set L)" by (rule subsetD)
    then have "x = 10 \<or> (\<exists>l\<in>set L. x \<in> set l)" by auto
    moreover have "\<not> (\<exists>l\<in>set L. x \<in> set l)"
    proof
      assume "\<exists>l\<in>set L. x \<in> set l"
      then obtain l where "l \<in> set L" "x \<in> set l" by blast
      with allnil show False by auto
    qed
    ultimately show "x \<in> {10}" by simp
  qed
  then have "set u \<subseteq> {10}" unfolding u_def using set_collapse_newlines by blast
  then have "\<forall>c\<in>set u. isspace c" by auto
  then show ?thesis unfolding out by (simp add: strip_eq_Nil_iff)
qed

text \<open>
  Claim C9 (degenerate input).  For an empty or whitespace-only input (which NFKC leaves
  empty or whitespace-only), normalization gives the empty string and chunking it gives
  exactly one chunk, with empty text, paragraph index 0 and offset 0.
\<close>

theorem degenerate_input:
  assumes "\<forall>c\<in>set t. isspace c" and "\<forall>c\<in>set (nfkc t). isspace c"
  shows "normalize_text nfkc isprintable t = [] \<and>
    preprocess_and_chunk (normalize_text nfkc isprintable t) doc cs ov
      = [\<lparr>chunk_text = [], doc_id = doc, paragraph_index = 0, offset = 0\<rparr>]"
proof -
  have n: "normalize_text nfkc isprintable t = []"
    unfolding normalize_text_def using assms(2) by (rule normalize_core_whitespace)
  have "paragraphs_of (strip []) = []" by (simp add: paragraphs_of_def)
  then have "preprocess_and_chunk [] doc cs ov
      = [\<lparr>chunk_text = [], doc_id = doc, paragraph_index = 0, offset = 0\<rparr>]"
    by (rule chunker_degenerate)
  with n show ?thesis by simp
qed

theorem degenerate_input_witness:
  "normalize_text nfkc_fragment isprintable_fragment [32, 9, 13, 10, 32] = [] \<and>
   preprocess_and_chunk (normalize_text nfkc_fragment isprintable_fragment [32, 9, 13, 10, 32])
     (of_ascii ''D1'') 2000 200
   = [\<lparr>chunk_text = [], doc_id = of_ascii ''D1'', paragraph_index = 0, offset = 0\<rparr>]"
proof -
  have h1: "\<forall>c\<in>set [32, 9, 13, 10, 32]. isspace c" by (simp add: isspace_def)
  have h2: "\<forall>c\<in>set (nfkc_fragment [32, 9, 13, 10, 32]). isspace c"
    by (simp add: nfkc_fragment_def fold_width_def isspace_def)
  from degenerate_input [of "[32, 9, 13, 10, 32]" nfkc_fragment isprintable_fragment
      "of_ascii ''D1''" 2000 200, OF h1 h2]
  show ?thesis .
qed

end
